theory Spec2Isabelle
  imports Complex_Main "HOL-Library.Sublist"
begin

section \<open>Python strings\<close>

text \<open>
  A Python \<open>str\<close> is a sequence of Unicode code points: a list of natural numbers. The
  texts that the source writes as literals, its messages and patterns, are ASCII and stay
  \<open>string\<close>s; \<open>codes\<close> gives the code points of such a text.

  What Python does with a character comes from its Unicode database. The list of white
  space below is all of it. For the word characters, \<open>str.upper\<close> and the folding of
  \<open>re.IGNORECASE\<close>, the entries up to U+00FF are written out; the entries above U+00FF are a
  parameter, a record \<open>unicode\<close>, and the statements below hold for every value of it.
\<close>

type_synonym ustring = "nat list"

definition codes :: "string \<Rightarrow> ustring" where
  "codes s = map of_char s"

record unicode =
  db_word :: "nat \<Rightarrow> bool"
  db_upper :: "nat \<Rightarrow> nat list"
  db_fold :: "nat \<Rightarrow> nat"

definition is_space :: "nat \<Rightarrow> bool" where
  \<comment> \<open>\<open>str.isspace\<close>, which \<open>str.strip\<close> and \<open>\s\<close> use.\<close>
  "is_space c =
     ((9 \<le> c \<and> c \<le> 13) \<or> (28 \<le> c \<and> c \<le> 32) \<or> c = 0x85 \<or> c = 0xA0 \<or> c = 0x1680
      \<or> (0x2000 \<le> c \<and> c \<le> 0x200A) \<or> c = 0x2028 \<or> c = 0x2029 \<or> c = 0x202F
      \<or> c = 0x205F \<or> c = 0x3000)"

definition is_word :: "unicode \<Rightarrow> nat \<Rightarrow> bool" where
  \<comment> \<open>the class \<open>\w\<close> of a \<open>str\<close> pattern: \<open>str.isalnum\<close> or the underscore.\<close>
  "is_word u c =
     (if c < 128 then (48 \<le> c \<and> c \<le> 57) \<or> (65 \<le> c \<and> c \<le> 90) \<or> c = 95 \<or> (97 \<le> c \<and> c \<le> 122)
      else if c < 256 then
        c = 0xAA \<or> c = 0xB2 \<or> c = 0xB3 \<or> c = 0xB5 \<or> c = 0xB9 \<or> c = 0xBA
        \<or> (0xBC \<le> c \<and> c \<le> 0xBE) \<or> (0xC0 \<le> c \<and> c \<le> 0xD6) \<or> (0xD8 \<le> c \<and> c \<le> 0xF6)
        \<or> 0xF8 \<le> c
      else db_word u c)"

definition upper_char :: "unicode \<Rightarrow> nat \<Rightarrow> nat list" where
  \<comment> \<open>\<open>str.upper\<close> of one character: it may give more than one.\<close>
  "upper_char u c =
     (if c < 128 then (if 97 \<le> c \<and> c \<le> 122 then [c - 32] else [c])
      else if c < 256 then
        (if c = 0xB5 then [0x39C]
         else if c = 0xDF then [0x53, 0x53]
         else if c = 0xFF then [0x178]
         else if 0xE0 \<le> c \<and> c \<noteq> 0xF7 then [c - 32]
         else [c])
      else db_upper u c)"

definition fold_char :: "unicode \<Rightarrow> nat \<Rightarrow> nat" where
  \<comment> \<open>the character as \<open>re.IGNORECASE\<close> compares it with an ASCII literal: up to U+00FF its
      lower-case form.\<close>
  "fold_char u c =
     (if c < 128 then (if 65 \<le> c \<and> c \<le> 90 then c + 32 else c)
      else if c < 256 then (if 0xC0 \<le> c \<and> c \<le> 0xDE \<and> c \<noteq> 0xD7 then c + 32 else c)
      else db_fold u c)"

definition py_upper :: "unicode \<Rightarrow> ustring \<Rightarrow> ustring" where
  "py_upper u s = concat (map (upper_char u) s)"

definition py_strip :: "ustring \<Rightarrow> ustring" where
  "py_strip s = rev (dropWhile is_space (rev (dropWhile is_space s)))"

definition startswith :: "ustring \<Rightarrow> ustring \<Rightarrow> bool" where
  \<comment> \<open>\<open>s.startswith(p)\<close>\<close>
  "startswith s p = prefix p s"

text \<open>\<open>s.count(sub)\<close>: the number of non-overlapping occurrences, scanning from the left.\<close>

function py_count :: "ustring \<Rightarrow> ustring \<Rightarrow> nat" where
  "py_count s sub =
     (if sub = [] then length s + 1
      else if length s < length sub then 0
      else if prefix sub s then 1 + py_count (drop (length sub) s) sub
      else py_count (tl s) sub)"
  by pat_completeness auto
termination
  by (relation "measure (\<lambda>(s, sub). length s)") (auto simp: neq_Nil_conv)

text \<open>\<open>str(n)\<close> for an integer, as an f-string prints it.\<close>

fun nat_digits :: "nat \<Rightarrow> string" where
  "nat_digits n =
     (if n < 10 then [char_of (48 + n)]
      else nat_digits (n div 10) @ [char_of (48 + n mod 10)])"

definition str_int :: "int \<Rightarrow> string" where
  "str_int i = (if i < 0 then CHR ''-'' # nat_digits (nat (- i)) else nat_digits (nat i))"

section \<open>The regular expressions of the module \<open>re\<close> that the validators use\<close>

record flags =
  ignorecase :: bool
  multiline :: bool
  dotall :: bool

text \<open>
  One-character items: a literal, the dot, \<open>\s\<close>, a bracketed set of ranges. The literals of
  the patterns are ASCII; the one pattern with a set is matched without \<open>re.IGNORECASE\<close>.
\<close>

datatype atom = Ch nat | Dot | Sp | Set "(nat \<times> nat) list"

datatype regex =
    Lit ustring
  | Atom atom
  | Star atom
  | StarLazy atom
  | Plus atom
  | WordB
  | Bol
  | Eol
  | Seq regex regex
  | Alt regex regex

definition in_ranges :: "(nat \<times> nat) list \<Rightarrow> nat \<Rightarrow> bool" where
  "in_ranges rs x = list_ex (\<lambda>(lo, hi). lo \<le> x \<and> x \<le> hi) rs"

fun atom_ok :: "unicode \<Rightarrow> flags \<Rightarrow> atom \<Rightarrow> nat \<Rightarrow> bool" where
  "atom_ok u fl (Ch c) x = (if ignorecase fl then fold_char u x = fold_char u c else x = c)"
| "atom_ok u fl Dot x = (dotall fl \<or> x \<noteq> 10)"
| "atom_ok u fl Sp x = is_space x"
| "atom_ok u fl (Set rs) x = in_ranges rs x"

text \<open>
  A position in the subject is the character before it (if any) and the text after it.
  \<open>rmatch\<close> lists the positions where a match starting at the given position can end, in the
  order a backtracking matcher tries them.
\<close>

type_synonym pos = "nat option \<times> ustring"

fun lit_match :: "unicode \<Rightarrow> flags \<Rightarrow> ustring \<Rightarrow> pos \<Rightarrow> pos list" where
  "lit_match u fl [] ps = [ps]"
| "lit_match u fl (c # w) (p, []) = []"
| "lit_match u fl (c # w) (p, x # xs) =
     (if atom_ok u fl (Ch c) x then lit_match u fl w (Some x, xs) else [])"

fun star_pos :: "unicode \<Rightarrow> flags \<Rightarrow> atom \<Rightarrow> pos \<Rightarrow> pos list" where
  "star_pos u fl a (p, []) = [(p, [])]"
| "star_pos u fl a (p, x # xs) =
     (p, x # xs) # (if atom_ok u fl a x then star_pos u fl a (Some x, xs) else [])"

definition word_boundary :: "unicode \<Rightarrow> pos \<Rightarrow> bool" where
  "word_boundary u ps =
     ((case fst ps of None \<Rightarrow> False | Some c \<Rightarrow> is_word u c)
      \<noteq> (case snd ps of [] \<Rightarrow> False | x # xs \<Rightarrow> is_word u x))"

fun rmatch :: "unicode \<Rightarrow> flags \<Rightarrow> regex \<Rightarrow> pos \<Rightarrow> pos list" where
  "rmatch u fl (Lit w) ps = lit_match u fl w ps"
| "rmatch u fl (Atom a) (p, s) =
     (case s of [] \<Rightarrow> [] | x # xs \<Rightarrow> if atom_ok u fl a x then [(Some x, xs)] else [])"
| "rmatch u fl (Star a) ps = rev (star_pos u fl a ps)"
| "rmatch u fl (StarLazy a) ps = star_pos u fl a ps"
| "rmatch u fl (Plus a) (p, s) =
     (case s of [] \<Rightarrow> []
      | x # xs \<Rightarrow> if atom_ok u fl a x then rev (star_pos u fl a (Some x, xs)) else [])"
| "rmatch u fl WordB ps = (if word_boundary u ps then [ps] else [])"
| "rmatch u fl Bol (p, s) =
     (if p = None \<or> (multiline fl \<and> p = Some 10) then [(p, s)] else [])"
| "rmatch u fl Eol (p, s) =
     (if s = [] \<or> s = [10] \<or> (multiline fl \<and> prefix [10] s) then [(p, s)] else [])"
| "rmatch u fl (Seq r1 r2) ps = concat (map (rmatch u fl r2) (rmatch u fl r1 ps))"
| "rmatch u fl (Alt r1 r2) ps = rmatch u fl r1 ps @ rmatch u fl r2 ps"

fun search_from :: "unicode \<Rightarrow> flags \<Rightarrow> regex \<Rightarrow> nat option \<Rightarrow> ustring \<Rightarrow> bool" where
  "search_from u fl r p [] = (rmatch u fl r (p, []) \<noteq> [])"
| "search_from u fl r p (x # xs) =
     (rmatch u fl r (p, x # xs) \<noteq> [] \<or> search_from u fl r (Some x) xs)"

definition re_search :: "unicode \<Rightarrow> flags \<Rightarrow> regex \<Rightarrow> ustring \<Rightarrow> bool" where
  \<comment> \<open>\<open>re.search(pattern, s, flags)\<close> finds a match: one that starts anywhere.\<close>
  "re_search u fl r s = search_from u fl r None s"

definition re_match :: "unicode \<Rightarrow> flags \<Rightarrow> regex \<Rightarrow> ustring \<Rightarrow> bool" where
  \<comment> \<open>\<open>re.match(pattern, s, flags)\<close> finds a match: one that starts at the beginning.\<close>
  "re_match u fl r s = (rmatch u fl r (None, s) \<noteq> [])"

fun seqs :: "regex list \<Rightarrow> regex" where
  "seqs [] = Lit []"
| "seqs [r] = r"
| "seqs (r # rs) = Seq r (seqs rs)"

fun alts :: "regex \<Rightarrow> regex list \<Rightarrow> regex" where
  "alts r [] = r"
| "alts r (x # xs) = Alt r (alts x xs)"

definition word_of :: "regex \<Rightarrow> regex" where
  \<comment> \<open>\<open>\b( ... )\b\<close>\<close>
  "word_of r = Seq WordB (Seq r WordB)"

definition lit :: "string \<Rightarrow> regex" where
  \<comment> \<open>the literal text of a pattern\<close>
  "lit s = Lit (codes s)"

section \<open>SecurityValidator\<close>

abbreviation bs :: char where "bs \<equiv> CHR 0x5C"
abbreviation sq :: nat where "sq \<equiv> 39"
abbreviation dq :: nat where "dq \<equiv> 34"

text \<open>Each pattern is its source text, which the rejection message quotes, and its reading.\<close>

definition BLOCKED_PATTERNS :: "(string \<times> regex) list" where
  "BLOCKED_PATTERNS =
   [ (bs # ''b(INSERT|UPDATE|DELETE|DROP|CREATE|ALTER|TRUNCATE|GRANT|REVOKE)'' @ bs # ''b'',
      word_of (alts (lit ''INSERT'') [lit ''UPDATE'', lit ''DELETE'', lit ''DROP'', lit ''CREATE'',
                 lit ''ALTER'', lit ''TRUNCATE'', lit ''GRANT'', lit ''REVOKE''])),
     (bs # ''b(EXEC|EXECUTE|SP_|XP_)'' @ bs # ''b'',
      word_of (alts (lit ''EXEC'') [lit ''EXECUTE'', lit ''SP_'', lit ''XP_''])),
     (''--.*'', Seq (lit ''--'') (Star Dot)),
     (''/'' @ bs # ''*.*?'' @ bs # ''*/'', seqs [lit ''/*'', StarLazy Dot, lit ''*/'']),
     ('';.*'', Seq (lit '';'') (Star Dot)),
     (bs # ''bUNION'' @ bs # ''b.*'' @ bs # ''bSELECT'' @ bs # ''b'',
      seqs [WordB, lit ''UNION'', WordB, Star Dot, WordB, lit ''SELECT'', WordB]),
     (bs # ''b(WAITFOR|DELAY)'' @ bs # ''b'',
      word_of (alts (lit ''WAITFOR'') [lit ''DELAY''])),
     (bs # ''b(LOAD_FILE|INTO'' @ bs # ''s+OUTFILE)'' @ bs # ''b'',
      word_of (alts (lit ''LOAD_FILE'') [seqs [lit ''INTO'', Plus Sp, lit ''OUTFILE'']])),
     (bs # ''b(DBMS_|UTL_|SYS'' @ bs # ''.)'' @ bs # ''b'',
      word_of (alts (lit ''DBMS_'') [lit ''UTL_'', lit ''SYS.''])),
     (bs # ''b(DUAL)'' @ bs # ''b.*'' @ bs # ''b(CONNECT'' @ bs # ''s+BY)'' @ bs # ''b'',
      seqs [WordB, lit ''DUAL'', WordB, Star Dot, WordB, lit ''CONNECT'', Plus Sp, lit ''BY'', WordB]),
     (bs # ''b(CHR|ASCII|SUBSTR)'' @ bs # ''b.*'' @ bs # ''b(SELECT)'' @ bs # ''b'',
      seqs [WordB, alts (lit ''CHR'') [lit ''ASCII'', lit ''SUBSTR''], WordB, Star Dot,
            WordB, lit ''SELECT'', WordB]) ]"

definition ORACLE_SPECIFIC_BLOCKS :: "(string \<times> regex) list" where
  "ORACLE_SPECIFIC_BLOCKS =
   [ (bs # ''b(DBMS_XMLQUERY|DBMS_XMLGEN|EXTRACTVALUE)'' @ bs # ''b'',
      word_of (alts (lit ''DBMS_XMLQUERY'') [lit ''DBMS_XMLGEN'', lit ''EXTRACTVALUE''])),
     (bs # ''b(SYS_CONTEXT|USERENV)'' @ bs # ''b'',
      word_of (alts (lit ''SYS_CONTEXT'') [lit ''USERENV''])),
     (bs # ''b(DBMS_PIPE|DBMS_LOCK)'' @ bs # ''b'',
      word_of (alts (lit ''DBMS_PIPE'') [lit ''DBMS_LOCK''])),
     (bs # ''b(JAVA_CALL|DBMS_JAVA)'' @ bs # ''b'',
      word_of (alts (lit ''JAVA_CALL'') [lit ''DBMS_JAVA''])),
     (bs # ''b(UTL_HTTP|UTL_FILE|UTL_TCP)'' @ bs # ''b'',
      word_of (alts (lit ''UTL_HTTP'') [lit ''UTL_FILE'', lit ''UTL_TCP''])),
     (bs # ''b(DBMS_EXPORT_EXTENSION)'' @ bs # ''b'',
      word_of (lit ''DBMS_EXPORT_EXTENSION'')) ]"

definition query_flags :: flags where
  \<comment> \<open>\<open>re.IGNORECASE | re.MULTILINE | re.DOTALL\<close>\<close>
  "query_flags = \<lparr>ignorecase = True, multiline = True, dotall = True\<rparr>"

definition concat_flags :: flags where
  \<comment> \<open>\<open>re.IGNORECASE\<close>\<close>
  "concat_flags = \<lparr>ignorecase = True, multiline = False, dotall = False\<rparr>"

definition no_flags :: flags where
  "no_flags = \<lparr>ignorecase = False, multiline = False, dotall = False\<rparr>"

definition complexity_checks :: "ustring \<Rightarrow> (nat \<times> nat \<times> string) list" where
  "complexity_checks query =
   [ (py_count query (codes ''(''), 15, ''Too many parentheses''),
     (py_count query (codes ''SELECT''), 8, ''Too many SELECT statements''),
     (py_count query (codes ''JOIN''), 10, ''Too many JOIN operations''),
     (length query, 5000, ''Query too long'') ]"

definition concat_patterns :: "regex list" where
  "concat_patterns =
   [ seqs [Lit [sq], Star Sp, lit ''||'', Star Sp, Lit [sq]],
     seqs [Lit [sq], Star Sp, lit ''+'', Star Sp, Lit [sq]],
     seqs [Lit [dq], Star Sp, lit ''||'', Star Sp, Lit [dq]] ]"

definition validate_query :: "unicode \<Rightarrow> ustring \<Rightarrow> bool \<times> string" where
  "validate_query u query =
     (if query = [] \<or> py_strip query = [] then (False, ''Query cannot be empty'')
      else
        let query_upper = py_upper u (py_strip query) in
        if \<not> startswith query_upper (codes ''SELECT'')
        then (False, ''Only SELECT queries are allowed'')
        else
          case find (\<lambda>(pattern, r). re_search u query_flags r query_upper)
                    (BLOCKED_PATTERNS @ ORACLE_SPECIFIC_BLOCKS) of
            Some (pattern, r) \<Rightarrow> (False, ''Query contains blocked pattern: '' @ pattern)
          | None \<Rightarrow>
              (case find (\<lambda>(count, limit, message). count > limit) (complexity_checks query) of
                 Some (count, limit, message) \<Rightarrow> (False, ''Query too complex: '' @ message)
               | None \<Rightarrow>
                   if list_ex (\<lambda>r. re_search u concat_flags r query) concat_patterns
                   then (False, ''Query contains suspicious string concatenation'')
                   else (True, ''Query validated successfully'')))"

definition table_name_pattern :: regex where
  \<comment> \<open>\<open>^[A-Za-z_][A-Za-z0-9_#$]*$\<close>: the ranges are those of A-Z, a-z, 0-9, and the
      characters \<open>_\<close> (95), \<open>#\<close> (35) and \<open>$\<close> (36).\<close>
  "table_name_pattern =
     seqs [Bol,
           Atom (Set [(65, 90), (97, 122), (95, 95)]),
           Star (Set [(65, 90), (97, 122), (48, 57), (95, 95), (35, 35), (36, 36)]),
           Eol]"

definition reserved_words :: "string list" where
  "reserved_words =
     [''SYS'', ''SYSTEM'', ''DUAL'', ''USER'', ''ALL_TABLES'', ''DBA_TABLES'',
      ''V$SESSION'', ''V$DATABASE'', ''GV$'', ''X$'']"

definition validate_table_name :: "unicode \<Rightarrow> ustring \<Rightarrow> bool \<times> string" where
  "validate_table_name u table_name =
     (if table_name = [] \<or> py_strip table_name = [] then (False, ''Table name cannot be empty'')
      else if \<not> re_match u no_flags table_name_pattern table_name
        then (False, ''Invalid table name format'')
      else if length table_name > 128 then (False, ''Table name too long'')
      else
        let table_upper = py_upper u table_name in
        case find (\<lambda>reserved. sublist (codes reserved) table_upper) reserved_words of
          Some reserved \<Rightarrow> (False, ''Table name contains reserved word: '' @ reserved)
        | None \<Rightarrow> (True, ''Table name validated successfully''))"

section \<open>RateLimiter\<close>

text \<open>
  Time stamps are the readings of \<open>time.time()\<close>, taken as real numbers; the reading of
  the clock is an argument \<open>now\<close> of \<open>is_allowed\<close>. A subscript or a \<open>del\<close> on a dictionary
  raises \<open>KeyError\<close> where the key is missing.
\<close>

datatype py_error = KeyError

record client_data =
  count :: int
  first_request :: real
  last_request :: real

record RateLimiter =
  max_requests :: int
  window_seconds :: int
  requests :: "string \<rightharpoonup> client_data"
  blocked_clients :: "string \<rightharpoonup> real"

definition RateLimiter_init :: "int \<Rightarrow> int \<Rightarrow> RateLimiter" where
  "RateLimiter_init mr ws =
     \<lparr>max_requests = mr, window_seconds = ws, requests = Map.empty, blocked_clients = Map.empty\<rparr>"

definition getitem :: "('k \<rightharpoonup> 'v) \<Rightarrow> 'k \<Rightarrow> py_error + 'v" where
  \<comment> \<open>\<open>d[k]\<close>\<close>
  "getitem d k = (case d k of None \<Rightarrow> Inl KeyError | Some v \<Rightarrow> Inr v)"

definition delitem :: "('k \<rightharpoonup> 'v) \<Rightarrow> 'k \<Rightarrow> py_error + ('k \<rightharpoonup> 'v)" where
  \<comment> \<open>\<open>del d[k]\<close>\<close>
  "delitem d k = (case d k of None \<Rightarrow> Inl KeyError | Some v \<Rightarrow> Inr (d(k := None)))"

definition bind_err :: "'e + 'a \<Rightarrow> ('a \<Rightarrow> 'e + 'b) \<Rightarrow> 'e + 'b" where
  "bind_err m f = (case m of Inl e \<Rightarrow> Inl e | Inr x \<Rightarrow> f x)"

definition py_int :: "real \<Rightarrow> int" where
  \<comment> \<open>\<open>int(x)\<close> truncates towards zero.\<close>
  "py_int x = (if x < 0 then \<lceil>x\<rceil> else \<lfloor>x\<rfloor>)"

definition clean_old :: "RateLimiter \<Rightarrow> real \<Rightarrow> (string \<rightharpoonup> client_data)" where
  \<comment> \<open>the entries whose window has not run out, as the dictionary comprehension keeps them.\<close>
  "clean_old self now =
     (\<lambda>k. case requests self k of
             None \<Rightarrow> None
           | Some v \<Rightarrow> if now - first_request v < real_of_int (window_seconds self) then Some v else None)"

text \<open>
  The first phase of \<open>is_allowed\<close>: \<open>Inl msg\<close> is the early return for a client whose block
  has not run out, \<open>Inr b\<close> the \<open>blocked_clients\<close> to go on with.
\<close>

definition check_blocked :: "RateLimiter \<Rightarrow> string \<Rightarrow> real \<Rightarrow> py_error + (string + (string \<rightharpoonup> real))" where
  "check_blocked self client_id now =
     (if blocked_clients self client_id \<noteq> None then
        bind_err (getitem (blocked_clients self) client_id) (\<lambda>until.
          if now < until then
            (let remaining_time = py_int (until - now) in
             Inr (Inl (''Rate limit exceeded. Try again in '' @ str_int remaining_time @ '' seconds.'')))
          else bind_err (delitem (blocked_clients self) client_id) (\<lambda>b. Inr (Inr b)))
      else Inr (Inr (blocked_clients self)))"

definition is_allowed ::
  "RateLimiter \<Rightarrow> string \<Rightarrow> real \<Rightarrow> py_error + ((bool \<times> string) \<times> RateLimiter)" where
  "is_allowed self client_id now =
     bind_err (check_blocked self client_id now) (\<lambda>r.
       case r of
         Inl msg \<Rightarrow> Inr ((False, msg), self)
       | Inr blocked \<Rightarrow>
           (let reqs = clean_old self now in
            if reqs client_id = None then
              Inr ((True, ''Request allowed''),
                   self\<lparr>requests := reqs(client_id \<mapsto>
                                        \<lparr>count = 1, first_request = now, last_request = now\<rparr>),
                        blocked_clients := blocked\<rparr>)
            else
              bind_err (getitem reqs client_id) (\<lambda>cd.
                if count cd \<ge> max_requests self then
                  (let block_until = first_request cd + real_of_int (window_seconds self);
                       remaining_time = py_int (block_until - now) in
                   Inr ((False, ''Rate limit exceeded ('' @ str_int (max_requests self)
                                 @ '' requests per '' @ str_int (window_seconds self)
                                 @ ''s). Try again in '' @ str_int remaining_time @ '' seconds.''),
                        self\<lparr>requests := reqs,
                             blocked_clients := blocked(client_id \<mapsto> block_until)\<rparr>))
                else
                  (let cd' = cd\<lparr>count := count cd + 1, last_request := now\<rparr> in
                   Inr ((True, ''Request allowed ('' @ str_int (count cd') @ ''/''
                                @ str_int (max_requests self) @ '')''),
                        self\<lparr>requests := reqs(client_id \<mapsto> cd'),
                             blocked_clients := blocked\<rparr>)))))"

text \<open>A sequence of calls, each with its client and its clock reading; an exception ends it.\<close>

fun run :: "RateLimiter \<Rightarrow> (string \<times> real) list \<Rightarrow> py_error + ((bool \<times> string) list \<times> RateLimiter)" where
  "run self [] = Inr ([], self)"
| "run self (call # calls) =
     bind_err (is_allowed self (fst call) (snd call)) (\<lambda>r.
       bind_err (run (snd r) calls) (\<lambda>rs. Inr (fst r # fst rs, snd rs)))"

definition results_of :: "string \<Rightarrow> (string \<times> real) list \<Rightarrow> (bool \<times> string) list \<Rightarrow> (bool \<times> string) list" where
  \<comment> \<open>the results that the calls of one client received.\<close>
  "results_of c calls rs = map snd (filter (\<lambda>(call, r). fst call = c) (zip calls rs))"

section \<open>Notions the stated properties use\<close>

definition dml_words :: "string list" where
  "dml_words = [''INSERT'', ''UPDATE'', ''DELETE'', ''DROP'', ''CREATE'', ''ALTER'',
                ''TRUNCATE'', ''GRANT'', ''REVOKE'']"

text \<open>
  A text contains \<open>w\<close> as a whole word, whatever the case of its letters: an occurrence
  with no word character next to it on either side.
\<close>

definition contains_word :: "unicode \<Rightarrow> ustring \<Rightarrow> string \<Rightarrow> bool" where
  "contains_word u s w =
     (\<exists>pre mid post. s = pre @ mid @ post \<and> py_upper u mid = codes w
        \<and> (pre = [] \<or> \<not> is_word u (last pre)) \<and> (post = [] \<or> \<not> is_word u (hd post)))"

text \<open>
  The text holds a closing quote \<open>q\<close>, the operator \<open>op\<close> and an opening quote \<open>q\<close>, with
  nothing but white space between them: two adjacent quoted strings joined by \<open>op\<close>.
\<close>

definition joined_quotes :: "nat \<Rightarrow> string \<Rightarrow> ustring \<Rightarrow> bool" where
  "joined_quotes q op s =
     (\<exists>pre ws1 ws2 post. s = pre @ [q] @ ws1 @ codes op @ ws2 @ [q] @ post
        \<and> list_all is_space ws1 \<and> list_all is_space ws2)"

text \<open>
  A character database with Python's entries for the combining mark U+0345 and the Greek
  capital iota U+0399, its upper-case form; the examples that leave U+0000..U+00FF use only
  these two characters.
\<close>

definition greek_db :: unicode where
  "greek_db =
     \<lparr>db_word = (\<lambda>c. c = 0x399),
      db_upper = (\<lambda>c. if c = 0x345 then [0x399] else [c]),
      db_fold = (\<lambda>c. if c = 0x399 then 0x3B9 else c)\<rparr>"

text \<open>The client has a block that has not run out at \<open>now\<close>.\<close>

definition still_blocked :: "RateLimiter \<Rightarrow> string \<Rightarrow> real \<Rightarrow> bool" where
  "still_blocked self c now = (case blocked_clients self c of None \<Rightarrow> False | Some u \<Rightarrow> now < u)"

text \<open>
  The invariant of the two dictionaries: a count lies between 1 and \<open>max_requests\<close>; a block
  of a client that still has its window entry ends at the start of that window plus
  \<open>window_seconds\<close>, and that window is full.
\<close>

definition rl_inv :: "RateLimiter \<Rightarrow> bool" where
  "rl_inv self =
     ((\<forall>k cd. requests self k = Some cd \<longrightarrow> 1 \<le> count cd \<and> count cd \<le> max_requests self)
      \<and> (\<forall>k u. blocked_clients self k = Some u \<longrightarrow>
            (case requests self k of
               None \<Rightarrow> True
             | Some cd \<Rightarrow> u = first_request cd + real_of_int (window_seconds self)
                          \<and> count cd = max_requests self)))"

text \<open>
  Two limiters look the same to client \<open>c\<close> from time \<open>T\<close> on: the same parameters, the same
  block, and the same window entry, unless the first has already dropped an entry that has
  run out by \<open>T\<close> and the second still holds it.
\<close>

definition same_view :: "string \<Rightarrow> real \<Rightarrow> RateLimiter \<Rightarrow> RateLimiter \<Rightarrow> bool" where
  "same_view c T s1 s2 =
     (max_requests s1 = max_requests s2 \<and> window_seconds s1 = window_seconds s2
      \<and> blocked_clients s1 c = blocked_clients s2 c
      \<and> (requests s1 c = requests s2 c
          \<or> (requests s1 c = None
              \<and> (case requests s2 c of None \<Rightarrow> False
                  | Some cd \<Rightarrow> real_of_int (window_seconds s2) \<le> T - first_request cd))))"

text \<open>The reasons with which the validators reject.\<close>

definition query_rejections :: "string list" where
  "query_rejections =
     [''Query cannot be empty'', ''Only SELECT queries are allowed'']
     @ map (\<lambda>(pattern, r). ''Query contains blocked pattern: '' @ pattern)
           (BLOCKED_PATTERNS @ ORACLE_SPECIFIC_BLOCKS)
     @ map (\<lambda>message. ''Query too complex: '' @ message)
           [''Too many parentheses'', ''Too many SELECT statements'',
            ''Too many JOIN operations'', ''Query too long'']
     @ [''Query contains suspicious string concatenation'']"

definition table_name_rejections :: "string list" where
  "table_name_rejections =
     [''Table name cannot be empty'', ''Invalid table name format'', ''Table name too long'']
     @ map (\<lambda>reserved. ''Table name contains reserved word: '' @ reserved) reserved_words"

text \<open>The characters that may start a table name, and those that may follow.\<close>

definition name_start :: "nat \<Rightarrow> bool" where
  "name_start c = ((65 \<le> c \<and> c \<le> 90) \<or> (97 \<le> c \<and> c \<le> 122) \<or> c = 95)"

definition name_char :: "nat \<Rightarrow> bool" where
  "name_char c = (name_start c \<or> (48 \<le> c \<and> c \<le> 57) \<or> c = 35 \<or> c = 36)"

section \<open>Characters, strings and matches: basic facts\<close>

lemma codes_Nil: "codes [] = []"
  by (simp add: codes_def)

lemma codes_Cons: "codes (c # s) = of_char c # codes s"
  by (simp add: codes_def)

lemma codes_append: "codes (a @ b) = codes a @ codes b"
  by (simp add: codes_def)

lemma is_word_not_space: "is_word u c \<Longrightarrow> c < 256 \<Longrightarrow> \<not> is_space c"
  unfolding is_word_def is_space_def by (auto split: if_splits)

lemma atom_ok_Ch_same: "atom_ok u fl (Ch c) c"
  by simp

lemma lit_match_self:
  "w \<noteq> [] \<Longrightarrow> lit_match u fl w (p, w @ rest) = [(Some (last w), rest)]"
proof (induction w arbitrary: p)
  case Nil
  then show ?case by simp
next
  case (Cons c w)
  show ?case
  proof (cases "w = []")
    case True
    then show ?thesis by simp
  next
    case False
    with Cons.IH [of "Some c"] show ?thesis by simp
  qed
qed

lemma star_pos_not_Nil: "star_pos u fl a ps \<noteq> []"
  by (cases ps; cases "snd ps") auto

lemma search_from_append:
  "rmatch u fl r (if xs = [] then p else Some (last xs), ys) \<noteq> [] \<Longrightarrow> search_from u fl r p (xs @ ys)"
proof (induction xs arbitrary: p)
  case Nil
  then show ?case by (cases ys) auto
next
  case (Cons x xs)
  have "search_from u fl r (Some x) (xs @ ys)"
  proof (rule Cons.IH)
    show "rmatch u fl r (if xs = [] then Some x else Some (last xs), ys) \<noteq> []"
      using Cons.prems by (cases "xs = []") auto
  qed
  then show ?case by simp
qed

lemma re_search_semicolon:
  assumes "59 \<in> set s"
  shows "re_search u fl (Seq (Lit [59]) (Star Dot)) s"
proof -
  from assms obtain xs ys where s: "s = xs @ 59 # ys"
    by (meson split_list)
  have "rmatch u fl (Seq (Lit [59]) (Star Dot)) (q, 59 # ys) \<noteq> []" for q
    using star_pos_not_Nil [of u fl Dot "(Some 59, ys)"] by simp
  then show ?thesis
    unfolding re_search_def s by (rule search_from_append)
qed

lemma dropWhile_all_iff: "(\<forall>x\<in>set (dropWhile P xs). P x) \<longleftrightarrow> (\<forall>x\<in>set xs. P x)"
proof
  assume a: "\<forall>x\<in>set (dropWhile P xs). P x"
  have "dropWhile P xs = []"
  proof (rule ccontr)
    assume "dropWhile P xs \<noteq> []"
    then have "\<not> P (hd (dropWhile P xs))" by (rule hd_dropWhile)
    moreover have "hd (dropWhile P xs) \<in> set (dropWhile P xs)"
      using \<open>dropWhile P xs \<noteq> []\<close> by simp
    ultimately show False using a by blast
  qed
  then show "\<forall>x\<in>set xs. P x" by (simp add: dropWhile_eq_Nil_conv)
next
  assume "\<forall>x\<in>set xs. P x"
  then show "\<forall>x\<in>set (dropWhile P xs). P x" by (meson set_dropWhileD)
qed

lemma py_strip_Nil_iff: "py_strip s = [] \<longleftrightarrow> list_all is_space s"
  by (simp add: py_strip_def dropWhile_eq_Nil_conv dropWhile_all_iff list_all_iff)

lemma dropWhile_keeps: "c \<in> set xs \<Longrightarrow> \<not> P c \<Longrightarrow> c \<in> set (dropWhile P xs)"
  by (induction xs) auto

lemma set_py_strip: "c \<in> set s \<Longrightarrow> \<not> is_space c \<Longrightarrow> c \<in> set (py_strip s)"
  by (simp add: py_strip_def dropWhile_keeps)

lemma set_py_strip_subset: "set (py_strip s) \<subseteq> set s"
  unfolding py_strip_def by (auto dest!: set_dropWhileD)

lemma dropWhile_mid:
  assumes "mid \<noteq> []" "\<not> P (hd mid)"
  shows "dropWhile P (pre @ mid @ post) = dropWhile P pre @ mid @ post"
proof (cases "\<forall>x\<in>set pre. P x")
  case True
  then have "dropWhile P pre = []" by simp
  moreover have "dropWhile P (mid @ post) = mid @ post"
    using assms by (cases mid) auto
  ultimately show ?thesis using True by (simp add: dropWhile_append)
next
  case False
  then show ?thesis by (auto simp: dropWhile_append)
qed

lemma py_strip_mid:
  assumes "mid \<noteq> []" "\<not> is_space (hd mid)" "\<not> is_space (last mid)"
  shows "py_strip (pre @ mid @ post)
         = dropWhile is_space pre @ mid @ rev (dropWhile is_space (rev post))"
proof -
  have "rev (dropWhile is_space pre @ mid @ post) = rev post @ rev mid @ rev (dropWhile is_space pre)"
    by simp
  moreover have "dropWhile is_space (rev post @ rev mid @ rev (dropWhile is_space pre))
        = dropWhile is_space (rev post) @ rev mid @ rev (dropWhile is_space pre)"
    by (rule dropWhile_mid) (use assms in \<open>auto simp: hd_rev\<close>)
  ultimately show ?thesis
    unfolding py_strip_def using dropWhile_mid [of mid is_space pre post] assms(1,2) by simp
qed

lemma last_dropWhile: "dropWhile P xs \<noteq> [] \<Longrightarrow> last (dropWhile P xs) = last xs"
  by (induction xs) (auto split: if_splits)

lemma hd_rev_dropWhile_rev:
  "rev (dropWhile P (rev xs)) \<noteq> [] \<Longrightarrow> hd (rev (dropWhile P (rev xs))) = hd xs"
  using last_dropWhile [of P "rev xs"] by (simp add: hd_rev last_rev)

lemma star_pos_append:
  "(\<forall>c\<in>set ws. atom_ok u fl a c) \<Longrightarrow>
     (if ws = [] then p else Some (last ws), rest) \<in> set (star_pos u fl a (p, ws @ rest))"
proof (induction ws arbitrary: p)
  case Nil
  then show ?case by (cases rest) auto
next
  case (Cons c ws)
  from Cons.IH [of "Some c"] Cons.prems show ?case by auto
qed

lemma star_pos_split:
  "(q, ys) \<in> set (star_pos u fl a (p, s)) \<Longrightarrow>
   \<exists>xs. s = xs @ ys \<and> (\<forall>x\<in>set xs. atom_ok u fl a x) \<and> q = (if xs = [] then p else Some (last xs))"
proof (induction s arbitrary: p)
  case Nil
  then show ?case by simp
next
  case (Cons x s)
  show ?case
  proof (cases "(q, ys) = (p, x # s)")
    case True
    then show ?thesis by (intro exI [of _ "[]"]) simp
  next
    case False
    with Cons.prems have ok: "atom_ok u fl a x" and r: "(q, ys) \<in> set (star_pos u fl a (Some x, s))"
      by (auto split: if_splits)
    from Cons.IH [OF r] obtain xs where "s = xs @ ys" "\<forall>x\<in>set xs. atom_ok u fl a x"
      "q = (if xs = [] then Some x else Some (last xs))" by blast
    with ok show ?thesis by (intro exI [of _ "x # xs"]) auto
  qed
qed

text \<open>Upper-casing a text of ASCII characters changes its lower-case letters only.\<close>

lemma upper_char_ascii:
  "c < 128 \<Longrightarrow> upper_char u c = [if 97 \<le> c \<and> c \<le> 122 then c - 32 else c]"
  by (simp add: upper_char_def)

lemma py_upper_ascii:
  "\<forall>c\<in>set s. c < 128 \<Longrightarrow> py_upper u s = map (\<lambda>c. if 97 \<le> c \<and> c \<le> 122 then c - 32 else c) s"
  by (induction s) (simp_all add: py_upper_def upper_char_ascii)

lemma py_upper_append: "py_upper u (a @ b) = py_upper u a @ py_upper u b"
  by (simp add: py_upper_def)

lemma is_word_ascii_upper:
  "c < 128 \<Longrightarrow> is_word u (if 97 \<le> c \<and> c \<le> 122 then c - 32 else c) = is_word u c"
  unfolding is_word_def by auto

subsection \<open>Evaluation of the matcher on literals\<close>

lemma re_search_eval:
  "re_search u fl (Lit w) s = search_from u fl (Lit w) None s"
  "re_search u fl (Atom a) s = search_from u fl (Atom a) None s"
  "re_search u fl (Star a) s = search_from u fl (Star a) None s"
  "re_search u fl (StarLazy a) s = search_from u fl (StarLazy a) None s"
  "re_search u fl (Plus a) s = search_from u fl (Plus a) None s"
  "re_search u fl WordB s = search_from u fl WordB None s"
  "re_search u fl Bol s = search_from u fl Bol None s"
  "re_search u fl Eol s = search_from u fl Eol None s"
  "re_search u fl (Seq r1 r2) s = search_from u fl (Seq r1 r2) None s"
  "re_search u fl (Alt r1 r2) s = search_from u fl (Alt r1 r2) None s"
  by (simp_all add: re_search_def)

lemmas string_eval = codes_Nil codes_Cons codes_append lit_def py_upper_def py_strip_def
  is_word_def is_space_def upper_char_def fold_char_def startswith_def

lemmas regex_eval = re_search_eval re_match_def word_of_def word_boundary_def
  in_ranges_def query_flags_def concat_flags_def no_flags_def

lemmas validate_query_eval = validate_query_def BLOCKED_PATTERNS_def ORACLE_SPECIFIC_BLOCKS_def
  concat_patterns_def complexity_checks_def py_count.simps string_eval regex_eval

section \<open>The data-changing verbs\<close>

lemma in_alts: "r \<in> set (r0 # rs) \<Longrightarrow> set (rmatch u fl r ps) \<subseteq> set (rmatch u fl (alts r0 rs) ps)"
  by (induction rs arbitrary: r0) auto

lemma rmatch_word_of:
  assumes w: "w \<noteq> []" "is_word u (hd w)" "is_word u (last w)"
    and r: "(Some (last w), rest) \<in> set (rmatch u fl r (p, w @ rest))"
    and before: "case p of None \<Rightarrow> True | Some c \<Rightarrow> \<not> is_word u c"
    and after: "rest = [] \<or> \<not> is_word u (hd rest)"
  shows "rmatch u fl (word_of r) (p, w @ rest) \<noteq> []"
proof -
  have b1: "word_boundary u (p, w @ rest)"
    using w before by (cases w; cases p) (auto simp: word_boundary_def)
  have b2: "word_boundary u (Some (last w), rest)"
    using w after by (cases rest) (auto simp: word_boundary_def)
  have "(Some (last w), rest) \<in> set (rmatch u fl (Seq r WordB) (p, w @ rest))"
    using r b2 by force
  then show ?thesis
    using b1 by (auto simp: word_of_def)
qed

lemma dml_words_shape:
  assumes "w \<in> set dml_words"
  shows "codes w \<noteq> [] \<and> is_word u (hd (codes w)) \<and> is_word u (last (codes w))
     \<and> (\<forall>c\<in>set (codes w). c < 128 \<and> is_word u c)"
proof -
  from assms consider "w = ''INSERT''" | "w = ''UPDATE''" | "w = ''DELETE''" | "w = ''DROP''"
    | "w = ''CREATE''" | "w = ''ALTER''" | "w = ''TRUNCATE''" | "w = ''GRANT''" | "w = ''REVOKE''"
    unfolding dml_words_def by fastforce
  then show ?thesis
    by cases (simp_all add: codes_def is_word_def)
qed

lemma find_hd: "P x \<Longrightarrow> find P (x # xs) = Some x"
  by simp

text \<open>
  Where the trimmed, upper-cased text, which is what the patterns are matched against, holds
  one of the verbs as a whole word, the first blocked pattern matches and the query is
  rejected.
\<close>

lemma dml_pattern_found:
  assumes w: "w \<in> set dml_words" and up: "py_upper u (py_strip query) = xs @ codes w @ rest"
    and before: "xs = [] \<or> \<not> is_word u (last xs)"
    and after: "rest = [] \<or> \<not> is_word u (hd rest)"
  shows "re_search u query_flags (snd (hd BLOCKED_PATTERNS)) (py_upper u (py_strip query))"
proof -
  note sh = dml_words_shape [OF w, of u]
  let ?r = "alts (lit ''INSERT'') [lit ''UPDATE'', lit ''DELETE'', lit ''DROP'', lit ''CREATE'',
                 lit ''ALTER'', lit ''TRUNCATE'', lit ''GRANT'', lit ''REVOKE'']"
  let ?p = "if xs = [] then None else Some (last xs)"
  have bx: "case ?p of None \<Rightarrow> True | Some c \<Rightarrow> \<not> is_word u c"
    using before by auto
  have "lit w \<in> set [lit ''INSERT'', lit ''UPDATE'', lit ''DELETE'', lit ''DROP'', lit ''CREATE'',
                 lit ''ALTER'', lit ''TRUNCATE'', lit ''GRANT'', lit ''REVOKE'']"
    using w by (auto simp: dml_words_def)
  then have "set (rmatch u query_flags (lit w) (?p, codes w @ rest))
               \<subseteq> set (rmatch u query_flags ?r (?p, codes w @ rest))"
    by (rule in_alts)
  moreover have "rmatch u query_flags (lit w) (?p, codes w @ rest) = [(Some (last (codes w)), rest)]"
    using sh by (simp add: lit_match_self lit_def)
  ultimately have "(Some (last (codes w)), rest) \<in> set (rmatch u query_flags ?r (?p, codes w @ rest))"
    by auto
  then have "rmatch u query_flags (word_of ?r) (?p, codes w @ rest) \<noteq> []"
    using sh bx after by (intro rmatch_word_of) auto
  then have "search_from u query_flags (word_of ?r) None (xs @ codes w @ rest)"
    by (intro search_from_append) simp
  then show ?thesis
    by (simp add: re_search_def up BLOCKED_PATTERNS_def)
qed

lemma dml_word_in_upper_rejected:
  assumes w: "w \<in> set dml_words" and up: "py_upper u (py_strip query) = xs @ codes w @ rest"
    and before: "xs = [] \<or> \<not> is_word u (last xs)"
    and after: "rest = [] \<or> \<not> is_word u (hd rest)"
  shows "fst (validate_query u query) = False \<and>
         (startswith (py_upper u (py_strip query)) (codes ''SELECT'') \<longrightarrow>
            validate_query u query =
              (False, ''Query contains blocked pattern: '' @ bs #
                 ''b(INSERT|UPDATE|DELETE|DROP|CREATE|ALTER|TRUNCATE|GRANT|REVOKE)'' @ bs # ''b''))"
proof -
  note found = dml_pattern_found [OF assms]
  have "py_upper u (py_strip query) \<noteq> []"
    using dml_words_shape [OF w, of u] by (simp add: up)
  then have "py_strip query \<noteq> []"
    by (auto simp: py_upper_def)
  then have nb: "query \<noteq> []" "py_strip query \<noteq> []"
    by (auto simp: py_strip_def)
  obtain t r ps where bp: "BLOCKED_PATTERNS @ ORACLE_SPECIFIC_BLOCKS = (t, r) # ps"
    and t: "t = bs # ''b(INSERT|UPDATE|DELETE|DROP|CREATE|ALTER|TRUNCATE|GRANT|REVOKE)'' @ bs # ''b''"
    and r: "r = snd (hd BLOCKED_PATTERNS)"
    by (simp add: BLOCKED_PATTERNS_def)
  have f: "find (\<lambda>(pattern, r). re_search u query_flags r (py_upper u (py_strip query)))
             (BLOCKED_PATTERNS @ ORACLE_SPECIFIC_BLOCKS) = Some (t, r)"
    unfolding bp using found r by simp
  show ?thesis
  proof (cases "startswith (py_upper u (py_strip query)) (codes ''SELECT'')")
    case True
    then show ?thesis
      using nb by (simp add: validate_query_def f t Let_def)
  next
    case False
    then show ?thesis
      using nb by (simp add: validate_query_def Let_def)
  qed
qed

text \<open>
  In a text of ASCII characters upper-casing moves no word boundary, and a whole word of the
  text as given is a whole word of the text that is matched.
\<close>

lemma ascii_word_in_upper:
  assumes w: "w \<in> set dml_words" and c: "contains_word u query w"
    and ascii: "\<forall>c\<in>set query. c < 128"
  shows "\<exists>xs rest. py_upper u (py_strip query) = xs @ codes w @ rest
           \<and> (xs = [] \<or> \<not> is_word u (last xs)) \<and> (rest = [] \<or> \<not> is_word u (hd rest))"
proof -
  let ?up = "\<lambda>c::nat. if 97 \<le> c \<and> c \<le> 122 then c - 32 else c"
  from c obtain pre mid post where q: "query = pre @ mid @ post" and mid: "py_upper u mid = codes w"
    and before: "pre = [] \<or> \<not> is_word u (last pre)" and after: "post = [] \<or> \<not> is_word u (hd post)"
    unfolding contains_word_def by blast
  note sh = dml_words_shape [OF w, of u]
  have am: "\<forall>c\<in>set mid. c < 128" using ascii q by simp
  have mid': "map ?up mid = codes w"
    using mid py_upper_ascii [OF am, of u] by simp
  have mid_ne: "mid \<noteq> []" using sh mid' by auto
  then have lt: "hd mid < 128" "last mid < 128" using am by auto
  have "is_word u (?up (hd mid))" "is_word u (?up (last mid))"
    using sh mid_ne by (simp_all add: hd_map last_map flip: mid')
  then have wd: "is_word u (hd mid)" "is_word u (last mid)"
    using lt by (simp_all only: is_word_ascii_upper)
  have ns: "\<not> is_space (hd mid)" "\<not> is_space (last mid)"
    using wd lt by (auto dest: is_word_not_space)
  define pre' where "pre' = dropWhile is_space pre"
  define post' where "post' = rev (dropWhile is_space (rev post))"
  have strip: "py_strip query = pre' @ mid @ post'"
    unfolding q pre'_def post'_def by (rule py_strip_mid [OF mid_ne ns])
  have ap: "\<forall>c\<in>set pre'. c < 128" "\<forall>c\<in>set post'. c < 128"
    using ascii set_py_strip_subset [of query] unfolding strip by auto
  have before': "pre' = [] \<or> \<not> is_word u (last pre')"
  proof (cases "pre' = []")
    case False
    then have "last pre' = last pre" "pre \<noteq> []"
      unfolding pre'_def by (auto intro: last_dropWhile)
    then show ?thesis using before by simp
  qed simp
  have after': "post' = [] \<or> \<not> is_word u (hd post')"
  proof (cases "post' = []")
    case False
    then have "hd post' = hd post" "post \<noteq> []"
      unfolding post'_def by (auto intro: hd_rev_dropWhile_rev)
    then show ?thesis using after by simp
  qed simp
  have up: "py_upper u (py_strip query) = map ?up pre' @ codes w @ map ?up post'"
    unfolding strip py_upper_append mid
    using py_upper_ascii [OF ap(1), of u] py_upper_ascii [OF ap(2), of u] by simp
  have bx: "map ?up pre' = [] \<or> \<not> is_word u (last (map ?up pre'))"
  proof (cases "pre' = []")
    case False
    then have "last pre' < 128" using ap(1) by auto
    then have "is_word u (?up (last pre')) = is_word u (last pre')"
      by (rule is_word_ascii_upper)
    then show ?thesis
      using before' False by (simp add: last_map)
  qed simp
  have br: "map ?up post' = [] \<or> \<not> is_word u (hd (map ?up post'))"
  proof (cases "post' = []")
    case False
    then have "hd post' < 128" using ap(2) by auto
    then have "is_word u (?up (hd post')) = is_word u (hd post')"
      by (rule is_word_ascii_upper)
    then show ?thesis
      using after' False by (simp add: hd_map)
  qed simp
  show ?thesis
    using up bx br by blast
qed

lemma ascii_dml_words_rejected:
  assumes "w \<in> set dml_words" and "contains_word u query w" and "\<forall>c\<in>set query. c < 128"
  shows "fst (validate_query u query) = False \<and>
         (startswith (py_upper u (py_strip query)) (codes ''SELECT'') \<longrightarrow>
            validate_query u query =
              (False, ''Query contains blocked pattern: '' @ bs #
                 ''b(INSERT|UPDATE|DELETE|DROP|CREATE|ALTER|TRUNCATE|GRANT|REVOKE)'' @ bs # ''b''))"
proof -
  from ascii_word_in_upper [OF assms] obtain xs rest
    where "py_upper u (py_strip query) = xs @ codes w @ rest"
      "xs = [] \<or> \<not> is_word u (last xs)" "rest = [] \<or> \<not> is_word u (hd rest)"
    by blast
  then show ?thesis
    by (rule dml_word_in_upper_rejected [OF assms(1)])
qed

lemma validate_query_select_drop:
  "validate_query u (codes ''SELECT 1; DROP TABLE x'') =
     (False, ''Query contains blocked pattern: '' @ bs #
        ''b(INSERT|UPDATE|DELETE|DROP|CREATE|ALTER|TRUNCATE|GRANT|REVOKE)'' @ bs # ''b'')"
  by (simp add: validate_query_eval)

text \<open>
  C1. A text that holds DROP as a whole word should be rejected. In the text
  \<open>SELECT 1 \<close>, U+0345, \<open>DROP TABLE x\<close> the word DROP stands between the combining mark
  U+0345, which is no word character, and a blank. \<open>str.upper\<close> turns U+0345 into the Greek
  capital iota U+0399, a word character; the patterns are matched against the upper-cased
  text, where no word boundary stands before DROP any more, and the query is accepted. The
  hypotheses are the entries of Python's character database for the two characters.
\<close>

theorem C1_combining_mark_accepted:
  assumes "db_upper u 0x345 = [0x399]" and "\<not> db_word u 0x345"
    and "db_word u 0x399" and "db_fold u 0x399 = 0x3B9"
  shows "contains_word u (codes ''SELECT 1 '' @ [0x345] @ codes ''DROP TABLE x'') ''DROP''
         \<and> validate_query u (codes ''SELECT 1 '' @ [0x345] @ codes ''DROP TABLE x'')
             = (True, ''Query validated successfully'')"
proof
  show "contains_word u (codes ''SELECT 1 '' @ [0x345] @ codes ''DROP TABLE x'') ''DROP''"
    unfolding contains_word_def
    apply (rule exI [of _ "codes ''SELECT 1 '' @ [0x345]"])
    apply (rule exI [of _ "codes ''DROP''"])
    apply (rule exI [of _ "codes '' TABLE x''"])
    apply (simp add: string_eval assms)
    done
  show "validate_query u (codes ''SELECT 1 '' @ [0x345] @ codes ''DROP TABLE x'')
          = (True, ''Query validated successfully'')"
    by (simp add: validate_query_eval assms)
qed

theorem C1_combining_mark_accepted_witness:
  "contains_word greek_db (codes ''SELECT 1 '' @ [0x345] @ codes ''DROP TABLE x'') ''DROP''
   \<and> validate_query greek_db (codes ''SELECT 1 '' @ [0x345] @ codes ''DROP TABLE x'')
       = (True, ''Query validated successfully'')"
  using C1_combining_mark_accepted [of greek_db] by (simp add: greek_db_def)

section \<open>Only SELECT statements pass\<close>

lemma validate_query_blank:
  "(\<forall>c\<in>set query. is_space c) \<Longrightarrow> validate_query u query = (False, ''Query cannot be empty'')"
  by (simp add: validate_query_def py_strip_Nil_iff list_all_iff)

lemma not_blank: "\<not> (\<forall>c\<in>set query. is_space c) \<Longrightarrow> query \<noteq> [] \<and> py_strip query \<noteq> []"
  by (auto simp: py_strip_Nil_iff list_all_iff)

lemma validate_query_not_select:
  "\<not> (\<forall>c\<in>set query. is_space c) \<Longrightarrow> \<not> startswith (py_upper u (py_strip query)) (codes ''SELECT'')
   \<Longrightarrow> validate_query u query = (False, ''Only SELECT queries are allowed'')"
  using not_blank [of query] by (simp add: validate_query_def Let_def)

lemma validate_query_accepted:
  assumes "fst (validate_query u query)"
  shows "query \<noteq> []" "py_strip query \<noteq> []"
    "startswith (py_upper u (py_strip query)) (codes ''SELECT'')"
    "find (\<lambda>(pattern, r). re_search u query_flags r (py_upper u (py_strip query)))
       (BLOCKED_PATTERNS @ ORACLE_SPECIFIC_BLOCKS) = None"
    "find (\<lambda>(count, limit, message). count > limit) (complexity_checks query) = None"
    "\<not> list_ex (\<lambda>r. re_search u concat_flags r query) concat_patterns"
  using assms
  by (auto simp: validate_query_def Let_def split: if_splits option.splits)

lemma accepted_no_blocked_pattern:
  assumes "fst (validate_query u query)" "(t, r) \<in> set (BLOCKED_PATTERNS @ ORACLE_SPECIFIC_BLOCKS)"
  shows "\<not> re_search u query_flags r (py_upper u (py_strip query))"
  using validate_query_accepted(4) [OF assms(1)] assms(2)
  by (auto simp: find_None_iff)

lemma semicolon_survives:
  assumes "59 \<in> set query"
  shows "59 \<in> set (py_upper u (py_strip query))"
proof -
  have "\<not> is_space 59" by (simp add: is_space_def)
  then have "59 \<in> set (py_strip query)" using assms by (simp add: set_py_strip)
  moreover have "59 \<in> set (upper_char u 59)" by (simp add: upper_char_def)
  ultimately show ?thesis
    unfolding py_upper_def by auto
qed

lemma accepted_no_semicolon:
  assumes "fst (validate_query u query)"
  shows "59 \<notin> set query"
proof
  assume "59 \<in> set query"
  then have "re_search u query_flags (Seq (Lit [59]) (Star Dot)) (py_upper u (py_strip query))"
    by (intro re_search_semicolon semicolon_survives)
  moreover have "('';.*'', Seq (Lit [59]) (Star Dot)) \<in> set (BLOCKED_PATTERNS @ ORACLE_SPECIFIC_BLOCKS)"
    by (simp add: BLOCKED_PATTERNS_def lit_def codes_def)
  ultimately show False using accepted_no_blocked_pattern [OF assms] by blast
qed

text \<open>
  C2. \<open>validate_query\<close> rejects an empty or all-blank input with "Query cannot be empty"
  and any other input whose trimmed, upper-cased text does not start with SELECT with
  "Only SELECT queries are allowed"; so what it accepts starts with SELECT after trimming and
  upper-casing and holds no semicolon (character 59) at all, hence none followed by further
  content. White space, trimming and upper-casing are Python's, for every Unicode text.
\<close>

theorem C2_only_select_accepted:
  "((\<forall>c\<in>set query. is_space c) \<longrightarrow> validate_query u query = (False, ''Query cannot be empty'')) \<and>
   (\<not> (\<forall>c\<in>set query. is_space c) \<and> \<not> startswith (py_upper u (py_strip query)) (codes ''SELECT'')
      \<longrightarrow> validate_query u query = (False, ''Only SELECT queries are allowed'')) \<and>
   (fst (validate_query u query) \<longrightarrow>
      startswith (py_upper u (py_strip query)) (codes ''SELECT'') \<and> 59 \<notin> set query \<and>
      \<not> (\<exists>pre post. query = pre @ codes '';'' @ post \<and> post \<noteq> []))"
proof (intro conjI impI)
  assume a: "fst (validate_query u query)"
  show "startswith (py_upper u (py_strip query)) (codes ''SELECT'')"
    by (rule validate_query_accepted(3) [OF a])
  show "59 \<notin> set query" by (rule accepted_no_semicolon [OF a])
  then show "\<not> (\<exists>pre post. query = pre @ codes '';'' @ post \<and> post \<noteq> [])"
    by (auto simp: codes_def)
qed (simp_all add: validate_query_blank validate_query_not_select)

lemma validate_query_plain_select:
  "validate_query u (codes ''SELECT * FROM employees'') = (True, ''Query validated successfully'')"
  by (simp add: validate_query_eval)

lemma validate_query_no_break_space:
  "validate_query u (0xA0 # codes ''SELECT 1'') = (True, ''Query validated successfully'')"
  by (simp add: validate_query_eval)

theorem C2_only_select_accepted_witness:
  "validate_query greek_db (codes ''   '') = (False, ''Query cannot be empty'') \<and>
   validate_query greek_db [0xA0, 0x85] = (False, ''Query cannot be empty'') \<and>
   validate_query greek_db (codes ''DELETE FROM users'') = (False, ''Only SELECT queries are allowed'') \<and>
   fst (validate_query greek_db (codes ''SELECT * FROM employees'')) \<and>
   startswith (py_upper greek_db (py_strip (codes ''SELECT * FROM employees''))) (codes ''SELECT'') \<and>
   59 \<notin> set (codes ''SELECT * FROM employees'') \<and>
   fst (validate_query greek_db (0xA0 # codes ''SELECT 1'')) \<and>
   startswith (py_upper greek_db (py_strip (0xA0 # codes ''SELECT 1''))) (codes ''SELECT'')"
proof -
  have a: "\<forall>c\<in>set (codes ''   ''). is_space c" by (simp add: string_eval)
  have a': "\<forall>c\<in>set [0xA0, 0x85]. is_space c" by (simp add: string_eval)
  have b: "\<not> (\<forall>c\<in>set (codes ''DELETE FROM users''). is_space c)" by (simp add: string_eval)
  have c: "\<not> startswith (py_upper greek_db (py_strip (codes ''DELETE FROM users''))) (codes ''SELECT'')"
    by (simp add: string_eval)
  have d: "fst (validate_query greek_db (codes ''SELECT * FROM employees''))"
    by (simp add: validate_query_plain_select)
  have e: "fst (validate_query greek_db (0xA0 # codes ''SELECT 1''))"
    by (simp add: validate_query_no_break_space)
  show ?thesis
    using C2_only_select_accepted [of "codes ''   ''" greek_db]
      C2_only_select_accepted [of "[0xA0, 0x85]" greek_db]
      C2_only_select_accepted [of "codes ''DELETE FROM users''" greek_db]
      C2_only_select_accepted [of "codes ''SELECT * FROM employees''" greek_db]
      C2_only_select_accepted [of "0xA0 # codes ''SELECT 1''" greek_db] a a' b c d e
    by blast
qed

section \<open>Queries that the validator accepts\<close>

text \<open>
  C5. A query that starts with SELECT and calls a package with the prefix \<open>DBMS_\<close> should be
  rejected. The pattern \<open>\b(DBMS_|UTL_|SYS\.)\b\<close> asks for a word boundary right after the
  underscore, so it does not match a package name such as \<open>DBMS_RANDOM\<close>, and this query is
  accepted.
\<close>

theorem C5_dbms_random_accepted:
  "validate_query u (codes ''SELECT DBMS_RANDOM.VALUE FROM employees'')
     = (True, ''Query validated successfully'')"
  by (simp add: validate_query_eval)

text \<open>
  C6. A query with more than 8 occurrences of SELECT, counted without regard to case, should
  be rejected. \<open>validate_query\<close> counts in the text as given, where a lower-case
  \<open>select\<close> is not an occurrence of \<open>SELECT\<close>: this query with nine of them is accepted.
\<close>

theorem C6_lowercase_selects_accepted:
  "py_count (py_upper u (py_strip (codes ''select(select(select(select(select(select(select(select(select 1))))))))'')))
      (codes ''SELECT'') = 9
   \<and> validate_query u (codes ''select(select(select(select(select(select(select(select(select 1))))))))'')
       = (True, ''Query validated successfully'')"
  by (simp add: validate_query_eval)

text \<open>The scenario of the sixteen parentheses, which is rejected as the claim says.\<close>

lemma sixteen_parentheses:
  "codes ''SELECT '' @ replicate 16 40 @ codes ''1'' @ replicate 16 41
     = codes ''SELECT ((((((((((((((((1))))))))))))))))''"
  by (simp add: eval_nat_numeral codes_def)

lemma validate_query_parentheses:
  "validate_query u (codes ''SELECT ((((((((((((((((1))))))))))))))))'')
     = (False, ''Query too complex: Too many parentheses'')"
  by (simp add: validate_query_eval)


text \<open>
  What the complexity checks do: with the counts taken in the text as given, the first bound
  that is exceeded gives the reason.
\<close>

lemma complexity_rejected:
  assumes "query \<noteq> []" "py_strip query \<noteq> []" "startswith (py_upper u (py_strip query)) (codes ''SELECT'')"
    and "find (\<lambda>(pattern, r). re_search u query_flags r (py_upper u (py_strip query)))
           (BLOCKED_PATTERNS @ ORACLE_SPECIFIC_BLOCKS) = None"
    and "15 < py_count query (codes ''('') \<or> 8 < py_count query (codes ''SELECT'')
         \<or> 10 < py_count query (codes ''JOIN'') \<or> 5000 < length query"
  shows "validate_query u query =
     (False, ''Query too complex: '' @
        (if 15 < py_count query (codes ''('') then ''Too many parentheses''
         else if 8 < py_count query (codes ''SELECT'') then ''Too many SELECT statements''
         else if 10 < py_count query (codes ''JOIN'') then ''Too many JOIN operations''
         else ''Query too long''))"
proof -
  consider (parentheses) "15 < py_count query (codes ''('')"
    | (selects) "\<not> 15 < py_count query (codes ''('')" "8 < py_count query (codes ''SELECT'')"
    | (joins) "\<not> 15 < py_count query (codes ''('')" "\<not> 8 < py_count query (codes ''SELECT'')"
        "10 < py_count query (codes ''JOIN'')"
    | (length) "\<not> 15 < py_count query (codes ''('')" "\<not> 8 < py_count query (codes ''SELECT'')"
        "\<not> 10 < py_count query (codes ''JOIN'')" "5000 < length query"
    using assms(5) by blast
  then show ?thesis
  proof cases
    case parentheses
    with assms(1-4) show ?thesis by (simp add: validate_query_def complexity_checks_def Let_def)
  next
    case selects
    with assms(1-4) show ?thesis by (simp add: validate_query_def complexity_checks_def Let_def)
  next
    case joins
    with assms(1-4) show ?thesis by (simp add: validate_query_def complexity_checks_def Let_def)
  next
    case length
    with assms(1-4) show ?thesis by (simp add: validate_query_def complexity_checks_def Let_def)
  qed
qed

section \<open>String concatenation\<close>

lemma rmatch_SeqI:
  "x \<in> set (rmatch u fl r1 ps) \<Longrightarrow> y \<in> set (rmatch u fl r2 x) \<Longrightarrow> y \<in> set (rmatch u fl (Seq r1 r2) ps)"
  by auto

lemma rmatch_LitI: "w \<noteq> [] \<Longrightarrow> (Some (last w), rest) \<in> set (rmatch u fl (Lit w) (p, w @ rest))"
  by (simp add: lit_match_self)

lemma rmatch_Star_SpI:
  "list_all is_space ws \<Longrightarrow>
     (if ws = [] then p else Some (last ws), rest) \<in> set (rmatch u fl (Star Sp) (p, ws @ rest))"
  using star_pos_append [of ws u fl Sp p rest] by (simp add: list_all_iff)

lemma joined_quotes_found:
  assumes j: "joined_quotes q op s" and op: "op \<noteq> []"
  shows "re_search u fl (seqs [Lit [q], Star Sp, lit op, Star Sp, Lit [q]]) s"
proof -
  define w where "w = codes op"
  have w: "w \<noteq> []" using op by (simp add: w_def codes_def)
  from j obtain pre ws1 ws2 post where s: "s = pre @ [q] @ ws1 @ w @ ws2 @ [q] @ post"
    and ws: "list_all is_space ws1" "list_all is_space ws2"
    unfolding joined_quotes_def w_def by blast
  define p0 where "p0 = (if pre = [] then None else Some (last pre))"
  define p1 where "p1 = (if ws1 = [] then Some q else Some (last ws1))"
  define p2 where "p2 = (if ws2 = [] then Some (last w) else Some (last ws2))"
  have 1: "(Some q, ws1 @ w @ ws2 @ [q] @ post)
             \<in> set (rmatch u fl (Lit [q]) (p0, [q] @ ws1 @ w @ ws2 @ [q] @ post))"
    using rmatch_LitI [of "[q]"] by simp
  have 2: "(p1, w @ ws2 @ [q] @ post) \<in> set (rmatch u fl (Star Sp) (Some q, ws1 @ w @ ws2 @ [q] @ post))"
    unfolding p1_def by (rule rmatch_Star_SpI [OF ws(1)])
  have 3: "(Some (last w), ws2 @ [q] @ post) \<in> set (rmatch u fl (Lit w) (p1, w @ ws2 @ [q] @ post))"
    by (rule rmatch_LitI [OF w])
  have 4: "(p2, [q] @ post) \<in> set (rmatch u fl (Star Sp) (Some (last w), ws2 @ [q] @ post))"
    unfolding p2_def by (rule rmatch_Star_SpI [OF ws(2)])
  have 5: "(Some q, post) \<in> set (rmatch u fl (Lit [q]) (p2, [q] @ post))"
    using rmatch_LitI [of "[q]"] by simp
  have "(Some q, post) \<in> set (rmatch u fl (Seq (Lit [q]) (Seq (Star Sp) (Seq (Lit w) (Seq (Star Sp) (Lit [q])))))
           (p0, [q] @ ws1 @ w @ ws2 @ [q] @ post))"
    by (intro rmatch_SeqI [OF 1] rmatch_SeqI [OF 2] rmatch_SeqI [OF 3] rmatch_SeqI [OF 4] 5)
  then have "rmatch u fl (seqs [Lit [q], Star Sp, lit op, Star Sp, Lit [q]])
               (if pre = [] then None else Some (last pre), [q] @ ws1 @ w @ ws2 @ [q] @ post) \<noteq> []"
    unfolding p0_def lit_def w_def [symmetric] by (auto simp del: rmatch.simps)
  then show ?thesis
    unfolding re_search_def s by (rule search_from_append)
qed

lemma validate_query_checks_passed:
  assumes "query \<noteq> []" "py_strip query \<noteq> []"
    "startswith (py_upper u (py_strip query)) (codes ''SELECT'')"
    "find (\<lambda>(pattern, r). re_search u query_flags r (py_upper u (py_strip query)))
       (BLOCKED_PATTERNS @ ORACLE_SPECIFIC_BLOCKS) = None"
    "find (\<lambda>(count, limit, message). count > limit) (complexity_checks query) = None"
  shows "validate_query u query =
     (if list_ex (\<lambda>r. re_search u concat_flags r query) concat_patterns
      then (False, ''Query contains suspicious string concatenation'')
      else (True, ''Query validated successfully''))"
  using assms by (simp add: validate_query_def Let_def)

text \<open>
  C8 (as amended). A query that passes the SELECT, blocked-pattern and complexity checks and
  whose text holds two adjacent single-quoted strings joined by \<open>||\<close> or by \<open>+\<close>, or two
  adjacent double-quoted strings joined by \<open>||\<close>, is rejected with
  "Query contains suspicious string concatenation". The white space that may stand between
  a quote and the operator is any of Python's, the no-break space among it.
\<close>

theorem C8_concatenation_rejected:
  assumes "query \<noteq> []" "py_strip query \<noteq> []"
    and "startswith (py_upper u (py_strip query)) (codes ''SELECT'')"
    and "find (\<lambda>(pattern, r). re_search u query_flags r (py_upper u (py_strip query)))
       (BLOCKED_PATTERNS @ ORACLE_SPECIFIC_BLOCKS) = None"
    and "find (\<lambda>(count, limit, message). count > limit) (complexity_checks query) = None"
    and "joined_quotes sq ''||'' query \<or> joined_quotes sq ''+'' query \<or> joined_quotes dq ''||'' query"
  shows "validate_query u query = (False, ''Query contains suspicious string concatenation'')"
proof -
  have "list_ex (\<lambda>r. re_search u concat_flags r query) concat_patterns"
    using assms(6) joined_quotes_found [of _ _ query u concat_flags]
    by (auto simp: concat_patterns_def simp del: seqs.simps)
  then show ?thesis
    using validate_query_checks_passed [OF assms(1-5)] by simp
qed

lemma joined_single_example:
  "joined_quotes sq ''||''
     (codes ''SELECT '' @ [sq] @ codes ''a'' @ [sq, 0xA0] @ codes ''||'' @ [0xA0, sq] @ codes ''b''
        @ [sq] @ codes '' FROM t'')"
  unfolding joined_quotes_def
  apply (rule exI [of _ "codes ''SELECT '' @ [sq] @ codes ''a''"])
  apply (rule exI [of _ "[0xA0]"])
  apply (rule exI [of _ "[0xA0]"])
  apply (rule exI [of _ "codes ''b'' @ [sq] @ codes '' FROM t''"])
  apply (simp add: string_eval)
  done

lemma joined_double_example:
  "joined_quotes dq ''+''
     (codes ''SELECT '' @ [dq] @ codes ''a'' @ [dq] @ codes '' + '' @ [dq] @ codes ''b'' @ [dq]
        @ codes '' FROM t'')"
  unfolding joined_quotes_def
  apply (rule exI [of _ "codes ''SELECT '' @ [dq] @ codes ''a''"])
  apply (rule exI [of _ "codes '' ''"])
  apply (rule exI [of _ "codes '' ''"])
  apply (rule exI [of _ "codes ''b'' @ [dq] @ codes '' FROM t''"])
  apply (simp add: string_eval)
  done

text \<open>Two double-quoted strings joined by \<open>+\<close> pass.\<close>

lemma validate_query_double_quoted_plus:
  "validate_query u
     (codes ''SELECT '' @ [dq] @ codes ''a'' @ [dq] @ codes '' + '' @ [dq] @ codes ''b'' @ [dq]
        @ codes '' FROM t'')
   = (True, ''Query validated successfully'')"
  by (simp add: validate_query_eval)

theorem C8_double_quoted_plus_counterexample:
  "joined_quotes dq ''+''
     (codes ''SELECT '' @ [dq] @ codes ''a'' @ [dq] @ codes '' + '' @ [dq] @ codes ''b'' @ [dq]
        @ codes '' FROM t'')
   \<and> validate_query greek_db
        (codes ''SELECT '' @ [dq] @ codes ''a'' @ [dq] @ codes '' + '' @ [dq] @ codes ''b'' @ [dq]
           @ codes '' FROM t'')
       = (True, ''Query validated successfully'')"
  using joined_double_example validate_query_double_quoted_plus [of greek_db] by simp

theorem C8_concatenation_rejected_witness:
  "joined_quotes sq ''||''
     (codes ''SELECT '' @ [sq] @ codes ''a'' @ [sq, 0xA0] @ codes ''||'' @ [0xA0, sq] @ codes ''b''
        @ [sq] @ codes '' FROM t'')
   \<and> validate_query greek_db
        (codes ''SELECT '' @ [sq] @ codes ''a'' @ [sq, 0xA0] @ codes ''||'' @ [0xA0, sq] @ codes ''b''
           @ [sq] @ codes '' FROM t'')
       = (False, ''Query contains suspicious string concatenation'')"
proof -
  let ?q = "codes ''SELECT '' @ [sq] @ codes ''a'' @ [sq, 0xA0] @ codes ''||'' @ [0xA0, sq] @ codes ''b''
        @ [sq] @ codes '' FROM t''"
  have 1: "?q \<noteq> []" by (simp add: codes_def)
  have 2: "py_strip ?q \<noteq> []" by (simp add: string_eval)
  have 3: "startswith (py_upper greek_db (py_strip ?q)) (codes ''SELECT'')" by (simp add: string_eval)
  have 4: "find (\<lambda>(pattern, r). re_search greek_db query_flags r (py_upper greek_db (py_strip ?q)))
             (BLOCKED_PATTERNS @ ORACLE_SPECIFIC_BLOCKS) = None"
    by (simp add: validate_query_eval)
  have 5: "find (\<lambda>(count, limit, message). count > limit) (complexity_checks ?q) = None"
    by (simp add: validate_query_eval)
  show ?thesis
    using C8_concatenation_rejected [OF 1 2 3 4 5] joined_single_example by blast
qed

text \<open>
  A query that a blocked pattern matches does not reach the concatenation check: here
  \<open>SYS.\<close> stands before the word character U+00E9.
\<close>

lemma validate_query_blocked_before_concatenation:
  "validate_query u
     (codes ''SELECT '' @ [sq] @ codes ''a'' @ [sq] @ codes '' || '' @ [sq] @ codes ''b'' @ [sq]
        @ codes '' FROM SYS.'' @ [0xE9])
   = (False, ''Query contains blocked pattern: '' @ bs # ''b(DBMS_|UTL_|SYS'' @ bs # ''.)'' @ bs # ''b'')"
  by (simp add: validate_query_eval)

section \<open>Table names\<close>

lemmas validate_table_name_eval = validate_table_name_def table_name_pattern_def reserved_words_def
  sublist_code string_eval regex_eval

text \<open>
  What the pattern matches: a first character from \<open>[A-Za-z_]\<close>, then characters from
  \<open>[A-Za-z0-9_#$]\<close>, and then the end of the text or one newline that ends the text (the
  \<open>$\<close> of \<open>re\<close> without \<open>re.MULTILINE\<close>).
\<close>

lemma star_then_end:
  "rmatch u no_flags (Seq (Star a) Eol) (p, s) \<noteq> [] \<longleftrightarrow>
   (\<exists>body. (s = body \<or> s = body @ [10]) \<and> (\<forall>x\<in>set body. atom_ok u no_flags a x))"
proof
  assume "rmatch u no_flags (Seq (Star a) Eol) (p, s) \<noteq> []"
  then obtain q ys where m: "(q, ys) \<in> set (star_pos u no_flags a (p, s))" and e: "ys = [] \<or> ys = [10]"
    by (auto simp: no_flags_def split: if_splits)
  from star_pos_split [OF m] e
  show "\<exists>body. (s = body \<or> s = body @ [10]) \<and> (\<forall>x\<in>set body. atom_ok u no_flags a x)"
    by auto
next
  assume "\<exists>body. (s = body \<or> s = body @ [10]) \<and> (\<forall>x\<in>set body. atom_ok u no_flags a x)"
  then obtain body ys where s: "s = body @ ys" and e: "ys = [] \<or> ys = [10]"
    and ok: "\<forall>x\<in>set body. atom_ok u no_flags a x"
    by auto
  from star_pos_append [OF ok, of p ys]
  have "(if body = [] then p else Some (last body), ys) \<in> set (star_pos u no_flags a (p, s))"
    by (simp add: s)
  moreover have "rmatch u no_flags Eol (if body = [] then p else Some (last body), ys) \<noteq> []"
    using e by auto
  ultimately show "rmatch u no_flags (Seq (Star a) Eol) (p, s) \<noteq> []"
    by (auto simp del: rmatch.simps(8) simp add: rmatch.simps(9))
qed

lemma name_start_atom:
  "atom_ok u no_flags (Set [(65, 90), (97, 122), (95, 95)]) c = name_start c"
  by (auto simp: no_flags_def in_ranges_def name_start_def)

lemma name_char_atom:
  "atom_ok u no_flags (Set [(65, 90), (97, 122), (48, 57), (95, 95), (35, 35), (36, 36)]) c
     = name_char c"
  by (auto simp: no_flags_def in_ranges_def name_char_def name_start_def)

lemma table_name_pattern_reads:
  "re_match u no_flags table_name_pattern t \<longleftrightarrow>
   (\<exists>c body. (t = c # body \<or> t = c # body @ [10]) \<and> name_start c
      \<and> (\<forall>x\<in>set body. name_char x))"
proof (cases t)
  case Nil
  then show ?thesis by (simp add: re_match_def table_name_pattern_def)
next
  case (Cons c rest)
  let ?S2 = "Set [(65, 90), (97, 122), (48, 57), (95, 95), (35, 35), (36, 36)]"
  have "re_match u no_flags table_name_pattern t \<longleftrightarrow>
        name_start c \<and> rmatch u no_flags (Seq (Star ?S2) Eol) (Some c, rest) \<noteq> []"
    unfolding re_match_def table_name_pattern_def Cons
    using name_start_atom [of u c]
    by (simp del: atom_ok.simps rmatch.simps(9)
          add: rmatch.simps(9) [of _ _ Bol] rmatch.simps(9) [of _ _ "Atom _"])
  also have "\<dots> \<longleftrightarrow> name_start c \<and>
      (\<exists>body. (rest = body \<or> rest = body @ [10]) \<and> (\<forall>x\<in>set body. name_char x))"
    unfolding star_then_end name_char_atom ..
  finally show ?thesis by (auto simp: Cons)
qed

lemma name_start_not_space: "name_start c \<Longrightarrow> \<not> is_space c"
  by (auto simp: name_start_def is_space_def)

lemma table_name_match_not_blank:
  assumes "re_match u no_flags table_name_pattern t"
  shows "t \<noteq> [] \<and> py_strip t \<noteq> []"
proof -
  from assms obtain c body where "t = c # body \<or> t = c # body @ [10]" "name_start c"
    unfolding table_name_pattern_reads by blast
  then have "c \<in> set t" "\<not> is_space c"
    by (auto dest: name_start_not_space)
  then show ?thesis
    by (auto simp: py_strip_Nil_iff list_all_iff)
qed

lemma validate_table_name_checked:
  assumes "re_match u no_flags table_name_pattern t" "length t \<le> 128"
  shows "validate_table_name u t =
    (case find (\<lambda>reserved. sublist (codes reserved) (py_upper u t)) reserved_words of
       Some reserved \<Rightarrow> (False, ''Table name contains reserved word: '' @ reserved)
     | None \<Rightarrow> (True, ''Table name validated successfully''))"
  using assms table_name_match_not_blank [OF assms(1)]
  by (simp add: validate_table_name_def Let_def)

lemma validate_table_name_accepted:
  assumes "fst (validate_table_name u t)"
  shows "re_match u no_flags table_name_pattern t" "length t \<le> 128"
    "find (\<lambda>reserved. sublist (codes reserved) (py_upper u t)) reserved_words = None"
    "validate_table_name u t = (True, ''Table name validated successfully'')"
  using assms
  by (auto simp: validate_table_name_def Let_def split: if_splits option.splits)

text \<open>
  What \<open>validate_table_name\<close> accepts: the names that \<open>re.match\<close> finds the pattern in, of at
  most 128 characters, whose upper-cased form contains no reserved word. Where the pattern and
  the length pass and a reserved word occurs, the reason names the first reserved word of the
  list that occurs.
\<close>

lemma validate_table_name_accepts:
  "fst (validate_table_name u t) \<longleftrightarrow>
      (\<exists>c body. (t = c # body \<or> t = c # body @ [10]) \<and> name_start c \<and> list_all name_char body)
      \<and> length t \<le> 128
      \<and> (\<forall>w\<in>set reserved_words. \<not> sublist (codes w) (py_upper u t))"
proof
  assume a: "fst (validate_table_name u t)"
  show "(\<exists>c body. (t = c # body \<or> t = c # body @ [10]) \<and> name_start c \<and> list_all name_char body)
      \<and> length t \<le> 128
      \<and> (\<forall>w\<in>set reserved_words. \<not> sublist (codes w) (py_upper u t))"
    using validate_table_name_accepted(1-3) [OF a]
    by (simp add: find_None_iff table_name_pattern_reads list_all_iff)
next
  assume a: "(\<exists>c body. (t = c # body \<or> t = c # body @ [10]) \<and> name_start c \<and> list_all name_char body)
      \<and> length t \<le> 128
      \<and> (\<forall>w\<in>set reserved_words. \<not> sublist (codes w) (py_upper u t))"
  then have m: "re_match u no_flags table_name_pattern t"
    by (simp add: table_name_pattern_reads list_all_iff)
  from a have "find (\<lambda>reserved. sublist (codes reserved) (py_upper u t)) reserved_words = None"
    by (simp add: find_None_iff)
  then show "fst (validate_table_name u t)"
    using a m by (simp add: validate_table_name_checked)
qed

lemma validate_table_name_reserved:
  assumes "re_match u no_flags table_name_pattern t" "length t \<le> 128"
    and "\<exists>w\<in>set reserved_words. sublist (codes w) (py_upper u t)"
  shows "\<exists>w\<in>set reserved_words. sublist (codes w) (py_upper u t)
           \<and> find (\<lambda>reserved. sublist (codes reserved) (py_upper u t)) reserved_words = Some w
           \<and> validate_table_name u t = (False, ''Table name contains reserved word: '' @ w)"
proof -
  from assms(3) obtain w
    where w: "find (\<lambda>reserved. sublist (codes reserved) (py_upper u t)) reserved_words = Some w"
    by (cases "find (\<lambda>reserved. sublist (codes reserved) (py_upper u t)) reserved_words")
       (auto simp: find_None_iff)
  then have "w \<in> set reserved_words" "sublist (codes w) (py_upper u t)"
    by (auto simp: find_Some_iff)
  moreover have "validate_table_name u t = (False, ''Table name contains reserved word: '' @ w)"
    using assms(1,2) w by (simp add: validate_table_name_checked)
  ultimately show ?thesis
    using w by blast
qed

lemma validate_table_name_V_SESSION:
  "validate_table_name u (codes ''V$SESSION'')
     = (False, ''Table name contains reserved word: V$SESSION'')"
  by (simp add: validate_table_name_eval)

lemma validate_table_name_employee_records:
  "validate_table_name u (codes ''employee_records'') = (True, ''Table name validated successfully'')"
  by (simp add: validate_table_name_eval)

text \<open>The reserved words are looked for in the upper-cased name.\<close>

lemma validate_table_name_lower_case:
  "validate_table_name u (codes ''sys_log'') = (False, ''Table name contains reserved word: SYS'')"
  "validate_table_name u (codes ''my_dual2'') = (False, ''Table name contains reserved word: DUAL'')"
  by (simp_all add: validate_table_name_eval)

text \<open>
  C7. \<open>validate_table_name\<close> should accept exactly the names of the grammar
  \<open>^[A-Za-z_][A-Za-z0-9_#$]*$\<close>, a first character from \<open>[A-Za-z_]\<close> and then characters
  from \<open>[A-Za-z0-9_#$]\<close> only, that are short enough and hold no reserved word. The name
  \<open>orders\<close> followed by a newline is not of that grammar, and it is accepted: the \<open>$\<close>
  of the pattern also matches before a newline that ends the text. The two scenarios of the
  claim come out as it says, and a reserved word is found in a lower-case name as well.
\<close>

theorem C7_trailing_newline_accepted:
  "validate_table_name u (codes ''orders'' @ [10]) = (True, ''Table name validated successfully'')
   \<and> \<not> list_all name_char (codes ''orders'' @ [10])
   \<and> \<not> name_char 10
   \<and> re_match u no_flags table_name_pattern (codes ''orders'' @ [10])
   \<and> validate_table_name u (codes ''V$SESSION'')
       = (False, ''Table name contains reserved word: V$SESSION'')
   \<and> validate_table_name u (codes ''employee_records'')
       = (True, ''Table name validated successfully'')
   \<and> validate_table_name u (codes ''sys_log'') = (False, ''Table name contains reserved word: SYS'')"
  by (simp add: validate_table_name_eval name_char_def name_start_def)

section \<open>The rate limiter: what a call does\<close>


lemma check_blocked_still:
  "blocked_clients self c = Some u \<Longrightarrow> now < u \<Longrightarrow>
   check_blocked self c now =
     Inr (Inl (''Rate limit exceeded. Try again in '' @ str_int (py_int (u - now)) @ '' seconds.''))"
  by (simp add: check_blocked_def getitem_def bind_err_def)

lemma check_blocked_pass:
  "\<not> still_blocked self c now \<Longrightarrow>
   check_blocked self c now = Inr (Inr ((blocked_clients self)(c := None)))"
  by (cases "blocked_clients self c")
     (auto simp: check_blocked_def still_blocked_def getitem_def delitem_def bind_err_def)

lemma is_allowed_still_blocked:
  "blocked_clients self c = Some u \<Longrightarrow> now < u \<Longrightarrow>
   is_allowed self c now =
     Inr ((False, ''Rate limit exceeded. Try again in '' @ str_int (py_int (u - now)) @ '' seconds.''),
          self)"
  by (simp add: is_allowed_def check_blocked_still bind_err_def)

lemma is_allowed_new:
  "\<not> still_blocked self c now \<Longrightarrow> clean_old self now c = None \<Longrightarrow>
   is_allowed self c now =
     Inr ((True, ''Request allowed''),
          self\<lparr>requests := (clean_old self now)(c \<mapsto> \<lparr>count = 1, first_request = now, last_request = now\<rparr>),
               blocked_clients := (blocked_clients self)(c := None)\<rparr>)"
  by (simp add: is_allowed_def check_blocked_pass bind_err_def)

lemma is_allowed_limit:
  "\<not> still_blocked self c now \<Longrightarrow> clean_old self now c = Some cd \<Longrightarrow>
   max_requests self \<le> count cd \<Longrightarrow>
   is_allowed self c now =
     Inr ((False, ''Rate limit exceeded ('' @ str_int (max_requests self) @ '' requests per ''
                  @ str_int (window_seconds self) @ ''s). Try again in ''
                  @ str_int (py_int (first_request cd + real_of_int (window_seconds self) - now))
                  @ '' seconds.''),
          self\<lparr>requests := clean_old self now,
               blocked_clients := (blocked_clients self)
                                    (c \<mapsto> first_request cd + real_of_int (window_seconds self))\<rparr>)"
  by (simp add: is_allowed_def check_blocked_pass bind_err_def getitem_def Let_def)

lemma is_allowed_count:
  "\<not> still_blocked self c now \<Longrightarrow> clean_old self now c = Some cd \<Longrightarrow>
   count cd < max_requests self \<Longrightarrow>
   is_allowed self c now =
     Inr ((True, ''Request allowed ('' @ str_int (count cd + 1) @ ''/''
                 @ str_int (max_requests self) @ '')''),
          self\<lparr>requests := (clean_old self now)(c \<mapsto> cd\<lparr>count := count cd + 1, last_request := now\<rparr>),
               blocked_clients := (blocked_clients self)(c := None)\<rparr>)"
  by (simp add: is_allowed_def check_blocked_pass bind_err_def getitem_def Let_def)

lemma is_allowed_cases:
  obtains (blocked) u where "blocked_clients self c = Some u" "now < u"
      "is_allowed self c now =
         Inr ((False, ''Rate limit exceeded. Try again in '' @ str_int (py_int (u - now)) @ '' seconds.''), self)"
  | (new) "\<not> still_blocked self c now" "clean_old self now c = None"
      "is_allowed self c now =
         Inr ((True, ''Request allowed''),
          self\<lparr>requests := (clean_old self now)(c \<mapsto> \<lparr>count = 1, first_request = now, last_request = now\<rparr>),
               blocked_clients := (blocked_clients self)(c := None)\<rparr>)"
  | (limit) cd where "\<not> still_blocked self c now" "clean_old self now c = Some cd"
      "max_requests self \<le> count cd"
      "is_allowed self c now =
         Inr ((False, ''Rate limit exceeded ('' @ str_int (max_requests self) @ '' requests per ''
                  @ str_int (window_seconds self) @ ''s). Try again in ''
                  @ str_int (py_int (first_request cd + real_of_int (window_seconds self) - now))
                  @ '' seconds.''),
          self\<lparr>requests := clean_old self now,
               blocked_clients := (blocked_clients self)
                                    (c \<mapsto> first_request cd + real_of_int (window_seconds self))\<rparr>)"
  | (count) cd where "\<not> still_blocked self c now" "clean_old self now c = Some cd"
      "count cd < max_requests self"
      "is_allowed self c now =
         Inr ((True, ''Request allowed ('' @ str_int (count cd + 1) @ ''/''
                 @ str_int (max_requests self) @ '')''),
          self\<lparr>requests := (clean_old self now)(c \<mapsto> cd\<lparr>count := count cd + 1, last_request := now\<rparr>),
               blocked_clients := (blocked_clients self)(c := None)\<rparr>)"
proof (cases "still_blocked self c now")
  case True
  then obtain u where "blocked_clients self c = Some u" "now < u"
    by (auto simp: still_blocked_def split: option.splits)
  then show ?thesis using blocked is_allowed_still_blocked by blast
next
  case nb: False
  show ?thesis
  proof (cases "clean_old self now c")
    case None
    then show ?thesis using new nb is_allowed_new by blast
  next
    case (Some cd)
    show ?thesis
    proof (cases "max_requests self \<le> count cd")
      case True
      then show ?thesis using limit nb Some is_allowed_limit by blast
    next
      case False
      then have "count cd < max_requests self" by simp
      then show ?thesis using count nb Some is_allowed_count by blast
    qed
  qed
qed

lemma is_allowed_total: "\<exists>v self'. is_allowed self c now = Inr (v, self')"
  by (rule is_allowed_cases [of self c now]) auto

lemma run_total: "\<exists>vs self'. run self calls = Inr (vs, self')"
proof (induction calls arbitrary: self)
  case Nil
  then show ?case by simp
next
  case (Cons call calls)
  obtain v s where 1: "is_allowed self (fst call) (snd call) = Inr (v, s)"
    using is_allowed_total by blast
  obtain vs s' where 2: "run s calls = Inr (vs, s')"
    using Cons.IH by blast
  show ?case by (simp add: 1 2 bind_err_def)
qed

lemma run_Cons:
  "is_allowed self c t = Inr (v, s) \<Longrightarrow> run s calls = Inr (vs, s') \<Longrightarrow>
   run self ((c, t) # calls) = Inr (v # vs, s')"
  by (simp add: bind_err_def)

lemma run_ConsE:
  assumes "run self (call # calls) = Inr (vs, s')"
  obtains v s ws where "is_allowed self (fst call) (snd call) = Inr (v, s)"
    "run s calls = Inr (ws, s')" "vs = v # ws"
  using assms by (auto simp: bind_err_def split: sum.splits)

lemma run_append:
  "run self xs = Inr (vs, s) \<Longrightarrow> run s ys = Inr (ws, s') \<Longrightarrow>
   run self (xs @ ys) = Inr (vs @ ws, s')"
proof (induction xs arbitrary: self vs)
  case Nil
  then show ?case by simp
next
  case (Cons call xs)
  from Cons.prems(1) obtain v s0 us where
    a: "is_allowed self (fst call) (snd call) = Inr (v, s0)" and b: "run s0 xs = Inr (us, s)"
    and c: "vs = v # us"
    by (rule run_ConsE)
  from Cons.IH [OF b Cons.prems(2)] show ?case
    by (simp add: a c bind_err_def)
qed

lemma find_SomeD: "find P xs = Some x \<Longrightarrow> x \<in> set xs \<and> P x"
  by (induction xs) (auto split: if_splits)

lemma is_allowed_params:
  assumes "is_allowed self c now = Inr (v, self')"
  shows "max_requests self' = max_requests self \<and> window_seconds self' = window_seconds self"
  by (rule is_allowed_cases [of self c now]) (use assms in auto)

lemma clean_old_SomeD:
  "clean_old self now k = Some cd \<Longrightarrow>
   requests self k = Some cd \<and> now - first_request cd < real_of_int (window_seconds self)"
  by (auto simp: clean_old_def split: option.splits if_splits)

lemma clean_old_None_iff:
  "clean_old self now k = None \<longleftrightarrow>
   (case requests self k of None \<Rightarrow> True
    | Some cd \<Rightarrow> real_of_int (window_seconds self) \<le> now - first_request cd)"
  by (auto simp: clean_old_def split: option.splits)

lemma rl_inv_init: "1 \<le> N \<Longrightarrow> rl_inv (RateLimiter_init N W)"
  by (simp add: rl_inv_def RateLimiter_init_def)

lemma rl_inv_step:
  assumes inv: "rl_inv self" and N: "1 \<le> max_requests self"
    and step: "is_allowed self c now = Inr (v, self')"
  shows "rl_inv self'"
proof (rule is_allowed_cases [of self c now])
  fix u assume "is_allowed self c now =
     Inr ((False, ''Rate limit exceeded. Try again in '' @ str_int (py_int (u - now)) @ '' seconds.''), self)"
  with step inv show ?thesis by simp
next
  assume nb: "\<not> still_blocked self c now" and co: "clean_old self now c = None"
    and r: "is_allowed self c now =
         Inr ((True, ''Request allowed''),
          self\<lparr>requests := (clean_old self now)(c \<mapsto> \<lparr>count = 1, first_request = now, last_request = now\<rparr>),
               blocked_clients := (blocked_clients self)(c := None)\<rparr>)"
  from r step have s': "self' = self\<lparr>requests := (clean_old self now)(c \<mapsto> \<lparr>count = 1, first_request = now, last_request = now\<rparr>),
               blocked_clients := (blocked_clients self)(c := None)\<rparr>" by simp
  show ?thesis
    unfolding rl_inv_def s' using inv N
    by (auto simp: rl_inv_def dest!: clean_old_SomeD split: option.splits)
next
  fix cd
  assume nb: "\<not> still_blocked self c now" and co: "clean_old self now c = Some cd"
    and lim: "max_requests self \<le> count cd"
    and r: "is_allowed self c now =
         Inr ((False, ''Rate limit exceeded ('' @ str_int (max_requests self) @ '' requests per ''
                  @ str_int (window_seconds self) @ ''s). Try again in ''
                  @ str_int (py_int (first_request cd + real_of_int (window_seconds self) - now))
                  @ '' seconds.''),
          self\<lparr>requests := clean_old self now,
               blocked_clients := (blocked_clients self)
                                    (c \<mapsto> first_request cd + real_of_int (window_seconds self))\<rparr>)"
  from r step have s': "self' = self\<lparr>requests := clean_old self now,
               blocked_clients := (blocked_clients self)
                                    (c \<mapsto> first_request cd + real_of_int (window_seconds self))\<rparr>" by simp
  from co have rc: "requests self c = Some cd" by (auto dest: clean_old_SomeD)
  with inv have "count cd \<le> max_requests self" unfolding rl_inv_def by blast
  with lim have cnt: "count cd = max_requests self" by simp
  show ?thesis
    unfolding rl_inv_def s' using inv co cnt
    by (auto simp: rl_inv_def dest!: clean_old_SomeD split: option.splits)
next
  fix cd
  assume nb: "\<not> still_blocked self c now" and co: "clean_old self now c = Some cd"
    and lim: "count cd < max_requests self"
    and r: "is_allowed self c now =
         Inr ((True, ''Request allowed ('' @ str_int (count cd + 1) @ ''/''
                 @ str_int (max_requests self) @ '')''),
          self\<lparr>requests := (clean_old self now)(c \<mapsto> cd\<lparr>count := count cd + 1, last_request := now\<rparr>),
               blocked_clients := (blocked_clients self)(c := None)\<rparr>)"
  from r step have s': "self' = self\<lparr>requests := (clean_old self now)(c \<mapsto> cd\<lparr>count := count cd + 1, last_request := now\<rparr>),
               blocked_clients := (blocked_clients self)(c := None)\<rparr>" by simp
  from co have rc: "requests self c = Some cd" by (auto dest: clean_old_SomeD)
  with inv have "1 \<le> count cd" unfolding rl_inv_def by blast
  then show ?thesis
    unfolding rl_inv_def s' using inv lim
    by (auto simp: rl_inv_def dest!: clean_old_SomeD split: option.splits)
qed

lemma rl_inv_run:
  assumes "rl_inv s" "1 \<le> max_requests s" "run s calls = Inr (vs, s')"
  shows "rl_inv s' \<and> max_requests s' = max_requests s \<and> window_seconds s' = window_seconds s"
  using assms
proof (induction calls arbitrary: s vs)
  case Nil
  then show ?case by simp
next
  case (Cons call calls)
  from Cons.prems(3) obtain v s0 ws where
    a: "is_allowed s (fst call) (snd call) = Inr (v, s0)" and b: "run s0 calls = Inr (ws, s')"
    by (rule run_ConsE)
  have "rl_inv s0" by (rule rl_inv_step [OF Cons.prems(1,2) a])
  moreover note p = is_allowed_params [OF a]
  ultimately show ?case
    using Cons.IH [OF _ _ b] Cons.prems(2) by simp
qed

lemma is_allowed_effect:
  assumes "is_allowed self c now = Inr (v, self')"
  obtains (blocked) "still_blocked self c now" "\<not> fst v" "self' = self"
  | (new) "\<not> still_blocked self c now" "clean_old self now c = None" "fst v"
      "requests self' = (clean_old self now)(c \<mapsto> \<lparr>count = 1, first_request = now, last_request = now\<rparr>)"
      "blocked_clients self' = (blocked_clients self)(c := None)"
  | (limit) cd where "\<not> still_blocked self c now" "clean_old self now c = Some cd"
      "max_requests self \<le> count cd" "\<not> fst v"
      "requests self' = clean_old self now"
      "blocked_clients self' = (blocked_clients self)(c \<mapsto> first_request cd + real_of_int (window_seconds self))"
  | (count) cd where "\<not> still_blocked self c now" "clean_old self now c = Some cd"
      "count cd < max_requests self" "fst v"
      "requests self' = (clean_old self now)(c \<mapsto> cd\<lparr>count := count cd + 1, last_request := now\<rparr>)"
      "blocked_clients self' = (blocked_clients self)(c := None)"
proof (rule is_allowed_cases [of self c now])
  fix u assume "blocked_clients self c = Some u" "now < u"
    "is_allowed self c now =
     Inr ((False, ''Rate limit exceeded. Try again in '' @ str_int (py_int (u - now)) @ '' seconds.''), self)"
  then show ?thesis using assms blocked by (simp add: still_blocked_def)
next
  assume "\<not> still_blocked self c now" "clean_old self now c = None"
    "is_allowed self c now =
         Inr ((True, ''Request allowed''),
          self\<lparr>requests := (clean_old self now)(c \<mapsto> \<lparr>count = 1, first_request = now, last_request = now\<rparr>),
               blocked_clients := (blocked_clients self)(c := None)\<rparr>)"
  then show ?thesis using assms new by simp
next
  fix cd assume "\<not> still_blocked self c now" "clean_old self now c = Some cd"
      "max_requests self \<le> count cd"
      "is_allowed self c now =
         Inr ((False, ''Rate limit exceeded ('' @ str_int (max_requests self) @ '' requests per ''
                  @ str_int (window_seconds self) @ ''s). Try again in ''
                  @ str_int (py_int (first_request cd + real_of_int (window_seconds self) - now))
                  @ '' seconds.''),
          self\<lparr>requests := clean_old self now,
               blocked_clients := (blocked_clients self)
                                    (c \<mapsto> first_request cd + real_of_int (window_seconds self))\<rparr>)"
  then show ?thesis using assms limit [of cd] by simp
next
  fix cd assume "\<not> still_blocked self c now" "clean_old self now c = Some cd"
      "count cd < max_requests self"
      "is_allowed self c now =
         Inr ((True, ''Request allowed ('' @ str_int (count cd + 1) @ ''/''
                 @ str_int (max_requests self) @ '')''),
          self\<lparr>requests := (clean_old self now)(c \<mapsto> cd\<lparr>count := count cd + 1, last_request := now\<rparr>),
               blocked_clients := (blocked_clients self)(c := None)\<rparr>)"
  then show ?thesis using assms count [of cd] by simp
qed

lemma full_window_not_incremented:
  assumes step: "is_allowed self c now = Inr (v, self')"
    and full: "requests self k = Some cd" "count cd = max_requests self"
    and after: "requests self' k = Some cd'"
  shows "cd' = cd \<or> (k = c \<and> cd' = \<lparr>count = 1, first_request = now, last_request = now\<rparr>)"
  using step
proof (cases rule: is_allowed_effect)
  case blocked
  then show ?thesis using full after by simp
next
  case new
  then show ?thesis using full after by (cases "k = c") (auto dest: clean_old_SomeD)
next
  case (limit cd0)
  then show ?thesis using full after by (auto dest: clean_old_SomeD)
next
  case (count cd0)
  show ?thesis
  proof (cases "k = c")
    case True
    with count(2) full have "cd0 = cd" by (auto dest: clean_old_SomeD)
    with count(3) full(2) show ?thesis by simp
  next
    case False
    then show ?thesis using count(5) full after by (auto dest: clean_old_SomeD)
  qed
qed

lemma full_window_blocks:
  assumes inv: "rl_inv self" and step: "is_allowed self c now = Inr (v, self')"
    and full: "requests self c = Some cd" "count cd = max_requests self"
    and live: "now - first_request cd < real_of_int (window_seconds self)"
  shows "\<not> fst v \<and> blocked_clients self' c = Some (first_request cd + real_of_int (window_seconds self))"
proof -
  have co: "clean_old self now c = Some cd"
    using full(1) live by (simp add: clean_old_def)
  from step show ?thesis
  proof (cases rule: is_allowed_effect)
    case blocked
    then obtain u where u: "blocked_clients self c = Some u"
      by (auto simp: still_blocked_def split: option.splits)
    with inv have "case requests self c of None \<Rightarrow> True
        | Some cd \<Rightarrow> u = first_request cd + real_of_int (window_seconds self)
                     \<and> count cd = max_requests self"
      unfolding rl_inv_def by blast
    with full(1) have "u = first_request cd + real_of_int (window_seconds self)" by simp
    with u blocked show ?thesis by simp
  next
    case new
    with co show ?thesis by simp
  next
    case (limit cd0)
    with co show ?thesis by simp
  next
    case (count cd0)
    with co full(2) show ?thesis by simp
  qed
qed

lemma new_block_from_window:
  assumes step: "is_allowed self c now = Inr (v, self')"
    and new: "blocked_clients self' k = Some u" "blocked_clients self k \<noteq> Some u"
  shows "k = c \<and> \<not> fst v \<and>
         (\<exists>cd. requests self c = Some cd \<and> requests self' c = Some cd
               \<and> now - first_request cd < real_of_int (window_seconds self)
               \<and> max_requests self \<le> count cd
               \<and> u = first_request cd + real_of_int (window_seconds self))"
  using step
proof (cases rule: is_allowed_effect)
  case blocked
  then show ?thesis using new by simp
next
  case new0: new
  then show ?thesis using new by (cases "k = c") auto
next
  case (limit cd0)
  from limit(2) have "requests self c = Some cd0"
    "now - first_request cd0 < real_of_int (window_seconds self)"
    by (auto dest: clean_old_SomeD)
  then show ?thesis using limit new by (cases "k = c") auto
next
  case (count cd0)
  then show ?thesis using new by (cases "k = c") auto
qed


lemma run_single: "is_allowed self c t = Inr (v, s) \<Longrightarrow> run self [(c, t)] = Inr ([v], s)"
  by (simp add: bind_err_def)

lemma quota_run:
  assumes "blocked_clients self c = None" "clean_old self t0 c = None"
    and "int (length rest) < max_requests self"
    and "\<forall>t\<in>set rest. t - t0 < real_of_int (window_seconds self)"
  shows "\<exists>vs self'. run self (map (Pair c) (t0 # rest)) = Inr (vs, self')
           \<and> map fst vs = replicate (Suc (length rest)) True
           \<and> requests self' c = Some \<lparr>count = 1 + int (length rest), first_request = t0,
                                       last_request = last (t0 # rest)\<rparr>
           \<and> blocked_clients self' c = None
           \<and> max_requests self' = max_requests self \<and> window_seconds self' = window_seconds self"
  using assms(3,4)
proof (induction rest rule: rev_induct)
  case Nil
  have nb: "\<not> still_blocked self c t0" using assms(1) by (simp add: still_blocked_def)
  show ?case
    using run_single [OF is_allowed_new [OF nb assms(2)]] assms(1) by simp
next
  case (snoc t rest)
  from snoc.prems have "int (length rest) < max_requests self"
    "\<forall>t\<in>set rest. t - t0 < real_of_int (window_seconds self)" by auto
  from snoc.IH [OF this] obtain vs s1 where
    r: "run self (map (Pair c) (t0 # rest)) = Inr (vs, s1)"
    and vs: "map fst vs = replicate (Suc (length rest)) True"
    and rq: "requests s1 c = Some \<lparr>count = 1 + int (length rest), first_request = t0,
                                   last_request = last (t0 # rest)\<rparr>"
    and bl: "blocked_clients s1 c = None"
    and pm: "max_requests s1 = max_requests self" "window_seconds s1 = window_seconds self"
    by blast
  let ?cd = "\<lparr>count = 1 + int (length rest), first_request = t0, last_request = last (t0 # rest)\<rparr>"
  have nb: "\<not> still_blocked s1 c t" using bl by (simp add: still_blocked_def)
  have co: "clean_old s1 t c = Some ?cd"
    using rq snoc.prems(2) pm by (simp add: clean_old_def)
  have lt: "count ?cd < max_requests s1" using snoc.prems(1) pm by simp
  note step = is_allowed_count [OF nb co lt]
  have "run self (map (Pair c) (t0 # rest) @ [(c, t)])
          = Inr (vs @ [(True, ''Request allowed ('' @ str_int (count ?cd + 1) @ ''/''
                   @ str_int (max_requests s1) @ '')'')],
                 s1\<lparr>requests := (clean_old s1 t)(c \<mapsto> ?cd\<lparr>count := count ?cd + 1, last_request := t\<rparr>),
                    blocked_clients := (blocked_clients s1)(c := None)\<rparr>)"
    by (rule run_append [OF r run_single [OF step]])
  then show ?case
    using vs bl pm by (auto simp: replicate_append_same)
qed

lemma blocked_run:
  assumes "blocked_clients s c = Some b" "\<forall>t\<in>set bl. t < b"
  shows "\<exists>vs. run s (map (Pair c) bl) = Inr (vs, s) \<and> map fst vs = replicate (length bl) False"
  using assms(2)
proof (induction bl)
  case Nil
  then show ?case by simp
next
  case (Cons t bl)
  then obtain vs where vs: "run s (map (Pair c) bl) = Inr (vs, s)"
    "map fst vs = replicate (length bl) False" by auto
  from Cons.prems have "t < b" by simp
  note step = is_allowed_still_blocked [OF assms(1) this]
  show ?case
    using run_Cons [OF step vs(1)] vs(2) by simp
qed


lemmas str_int_eval = str_int_def py_int_def char_of_def bit_0 bit_Suc



section \<open>Quota, block and reset\<close>

text \<open>
  C3. A limiter built with \<open>max_requests = N \<ge> 1\<close> and \<open>window_seconds = W \<ge> 1\<close>, and one
  client whose first call comes at \<open>t0\<close>: the first \<open>N\<close> calls, all less than \<open>W\<close> seconds after
  \<open>t0\<close>, are allowed; call \<open>N + 1\<close>, also less than \<open>W\<close> seconds after \<open>t0\<close>, is rejected with
  a message that gives the remaining seconds and sets a block until \<open>t0 + W\<close>; calls before
  that time stay rejected; the first call at a time \<open>u \<ge> t0 + W\<close> is allowed with the message
  "Request allowed" and a fresh window of count 1.
\<close>

theorem C3_quota_block_reset:
  assumes "1 \<le> N" "1 \<le> W"
    and "Suc (length rest) = nat N"
    and "\<forall>t\<in>set rest. t - t0 < real_of_int W"
    and "t' - t0 < real_of_int W"
    and "\<forall>t\<in>set bl. t < t0 + real_of_int W"
    and "t0 + real_of_int W \<le> u"
  shows "\<exists>vs1 s1 vs2 s2.
      run (RateLimiter_init N W) (map (Pair c) (t0 # rest @ [t'])) = Inr (vs1, s1)
    \<and> map fst vs1 = replicate (nat N) True @ [False]
    \<and> last vs1 = (False, ''Rate limit exceeded ('' @ str_int N @ '' requests per '' @ str_int W
                     @ ''s). Try again in '' @ str_int (py_int (t0 + real_of_int W - t'))
                     @ '' seconds.'')
    \<and> blocked_clients s1 c = Some (t0 + real_of_int W)
    \<and> run s1 (map (Pair c) (bl @ [u])) = Inr (vs2, s2)
    \<and> map fst vs2 = replicate (length bl) False @ [True]
    \<and> last vs2 = (True, ''Request allowed'')
    \<and> requests s2 c = Some \<lparr>count = 1, first_request = u, last_request = u\<rparr>
    \<and> blocked_clients s2 c = None"
proof -
  let ?L = "RateLimiter_init N W"
  have len: "int (length rest) < max_requests ?L" "1 + int (length rest) = N"
    using assms(1,3) by (simp_all add: RateLimiter_init_def)
  have "\<exists>vs self'. run ?L (map (Pair c) (t0 # rest)) = Inr (vs, self')
           \<and> map fst vs = replicate (Suc (length rest)) True
           \<and> requests self' c = Some \<lparr>count = 1 + int (length rest), first_request = t0,
                                       last_request = last (t0 # rest)\<rparr>
           \<and> blocked_clients self' c = None
           \<and> max_requests self' = max_requests ?L \<and> window_seconds self' = window_seconds ?L"
    by (rule quota_run) (use assms(4) len in \<open>simp_all add: RateLimiter_init_def clean_old_def\<close>)
  then obtain vs sa where
    ra: "run ?L (map (Pair c) (t0 # rest)) = Inr (vs, sa)"
    and vs: "map fst vs = replicate (nat N) True"
    and rq: "requests sa c = Some \<lparr>count = N, first_request = t0, last_request = last (t0 # rest)\<rparr>"
    and bla: "blocked_clients sa c = None"
    and pm: "max_requests sa = N" "window_seconds sa = W"
    using len(2) assms(3) by (auto simp: RateLimiter_init_def)
  let ?cd = "\<lparr>count = N, first_request = t0, last_request = last (t0 # rest)\<rparr>"
  have nb: "\<not> still_blocked sa c t'" using bla by (simp add: still_blocked_def)
  have co: "clean_old sa t' c = Some ?cd" using rq assms(5) pm by (simp add: clean_old_def)
  have full: "max_requests sa \<le> count ?cd" using pm by simp
  note step = is_allowed_limit [OF nb co full]
  define s1 where "s1 = sa\<lparr>requests := clean_old sa t',
      blocked_clients := (blocked_clients sa)(c \<mapsto> first_request ?cd + real_of_int (window_seconds sa))\<rparr>"
  define m1 where "m1 = ''Rate limit exceeded ('' @ str_int N @ '' requests per '' @ str_int W
                     @ ''s). Try again in '' @ str_int (py_int (t0 + real_of_int W - t'))
                     @ '' seconds.''"
  have r1: "run ?L (map (Pair c) (t0 # rest @ [t'])) = Inr (vs @ [(False, m1)], s1)"
    using run_append [OF ra run_single [OF step]] by (simp add: s1_def m1_def pm)
  have b1: "blocked_clients s1 c = Some (t0 + real_of_int W)" by (simp add: s1_def pm)
  have q1: "requests s1 c = Some ?cd" by (simp add: s1_def co)
  have p1: "window_seconds s1 = W" by (simp add: s1_def pm)
  from blocked_run [OF b1 assms(6)] obtain ws where
    r2: "run s1 (map (Pair c) bl) = Inr (ws, s1)" and ws: "map fst ws = replicate (length bl) False"
    by blast
  have nb2: "\<not> still_blocked s1 c u" using b1 assms(7) by (simp add: still_blocked_def)
  have co2: "clean_old s1 u c = None" using q1 p1 assms(7) by (simp add: clean_old_def)
  note step2 = is_allowed_new [OF nb2 co2]
  define s2 where "s2 = s1\<lparr>requests := (clean_old s1 u)(c \<mapsto> \<lparr>count = 1, first_request = u, last_request = u\<rparr>),
               blocked_clients := (blocked_clients s1)(c := None)\<rparr>"
  have r3: "run s1 (map (Pair c) (bl @ [u])) = Inr (ws @ [(True, ''Request allowed'')], s2)"
    using run_append [OF r2 run_single [OF step2]] by (simp add: s2_def)
  have "requests s2 c = Some \<lparr>count = 1, first_request = u, last_request = u\<rparr>"
    "blocked_clients s2 c = None" by (simp_all add: s2_def)
  with r1 r3 b1 vs ws show ?thesis
    unfolding m1_def by (intro exI [of _ "vs @ [(False, m1)]"] exI [of _ s1]
        exI [of _ "ws @ [(True, ''Request allowed'')]"] exI [of _ s2]) (simp add: m1_def)
qed

theorem C3_quota_block_reset_witness:
  "(1::int) \<le> 3 \<and> (1::int) \<le> 60 \<and> Suc (length [1, 2 :: real]) = nat 3
   \<and> list_all (\<lambda>t. t - 0 < real_of_int 60) [1, 2 :: real] \<and> (3::real) - 0 < real_of_int 60
   \<and> list_all (\<lambda>t. t < 0 + real_of_int 60) [10 :: real] \<and> (0::real) + real_of_int 60 \<le> 60
   \<and> (\<exists>vs1 s1 vs2 s2.
        run (RateLimiter_init 3 60) [(''c1'', 0), (''c1'', 1), (''c1'', 2), (''c1'', 3)] = Inr (vs1, s1)
      \<and> map fst vs1 = [True, True, True, False]
      \<and> last vs1 = (False, ''Rate limit exceeded (3 requests per 60s). Try again in 57 seconds.'')
      \<and> blocked_clients s1 ''c1'' = Some 60
      \<and> run s1 [(''c1'', 10), (''c1'', 60)] = Inr (vs2, s2)
      \<and> map fst vs2 = [False, True]
      \<and> last vs2 = (True, ''Request allowed'')
      \<and> requests s2 ''c1'' = Some \<lparr>count = 1, first_request = 60, last_request = 60\<rparr>
      \<and> blocked_clients s2 ''c1'' = None)"
proof -
  have h: "(1::int) \<le> 3" "(1::int) \<le> 60" "Suc (length [1, 2 :: real]) = nat 3"
    "\<forall>t\<in>set [1, 2 :: real]. t - 0 < real_of_int 60" "(3::real) - 0 < real_of_int 60"
    "\<forall>t\<in>set [10 :: real]. t < 0 + real_of_int 60" "(0::real) + real_of_int 60 \<le> 60"
    by simp_all
  have e: "map (Pair ''c1'') (0 # [1, 2] @ [3 :: real]) = [(''c1'', 0), (''c1'', 1), (''c1'', 2), (''c1'', 3)]"
    "map (Pair ''c1'') ([10] @ [60 :: real]) = [(''c1'', 10), (''c1'', 60)]"
    "replicate (nat 3) True @ [False] = [True, True, True, False]"
    "replicate (length [10 :: real]) False @ [True] = [False, True]"
    "(0::real) + real_of_int 60 = 60"
    by (simp_all add: eval_nat_numeral)
  have m: "''Rate limit exceeded ('' @ str_int 3 @ '' requests per '' @ str_int 60
        @ ''s). Try again in '' @ str_int (py_int (60 - 3)) @ '' seconds.''
     = ''Rate limit exceeded (3 requests per 60s). Try again in 57 seconds.''"
    by (simp add: str_int_eval)
  from C3_quota_block_reset [OF h, of "''c1''"]
  have "\<exists>vs1 s1 vs2 s2.
        run (RateLimiter_init 3 60) [(''c1'', 0), (''c1'', 1), (''c1'', 2), (''c1'', 3)] = Inr (vs1, s1)
      \<and> map fst vs1 = [True, True, True, False]
      \<and> last vs1 = (False, ''Rate limit exceeded (3 requests per 60s). Try again in 57 seconds.'')
      \<and> blocked_clients s1 ''c1'' = Some 60
      \<and> run s1 [(''c1'', 10), (''c1'', 60)] = Inr (vs2, s2)
      \<and> map fst vs2 = [False, True]
      \<and> last vs2 = (True, ''Request allowed'')
      \<and> requests s2 ''c1'' = Some \<lparr>count = 1, first_request = 60, last_request = 60\<rparr>
      \<and> blocked_clients s2 ''c1'' = None"
    unfolding e m .
  then show ?thesis by simp
qed

section \<open>The invariant of the limiter\<close>

text \<open>
  C4. In every state that calls of \<open>is_allowed\<close> reach from a limiter built with
  \<open>max_requests = N \<ge> 1\<close> and \<open>window_seconds = W \<ge> 1\<close>, and after one more call: a count lies
  between 1 and \<open>N\<close>; an entry whose count is \<open>N\<close> is not incremented (it stays as it is, is
  dropped, or is replaced by a fresh entry of count 1 once its window has run out) and a call
  of its client within the window is rejected and leaves the client blocked; a block that a
  call sets ends at the start of the client's window plus \<open>W\<close>.
\<close>

theorem C4_invariant:
  assumes "1 \<le> N" "1 \<le> W"
    and "run (RateLimiter_init N W) calls = Inr (vs, self)"
    and "is_allowed self c now = Inr (v, self')"
  shows "rl_inv self \<and> rl_inv self' \<and> max_requests self' = N \<and> window_seconds self' = W
    \<and> (\<forall>k cd cd'. requests self k = Some cd \<and> count cd = N \<and> requests self' k = Some cd' \<longrightarrow>
          cd' = cd \<or> (k = c \<and> cd' = \<lparr>count = 1, first_request = now, last_request = now\<rparr>))
    \<and> (\<forall>cd. requests self c = Some cd \<and> count cd = N \<and> now - first_request cd < real_of_int W \<longrightarrow>
          \<not> fst v \<and> blocked_clients self' c = Some (first_request cd + real_of_int W))
    \<and> (\<forall>k u. blocked_clients self' k = Some u \<and> blocked_clients self k \<noteq> Some u \<longrightarrow>
          k = c \<and> \<not> fst v \<and>
          (\<exists>cd. requests self c = Some cd \<and> requests self' c = Some cd
                \<and> now - first_request cd < real_of_int W \<and> count cd = N
                \<and> u = first_request cd + real_of_int W))"
proof -
  have i0: "rl_inv (RateLimiter_init N W)" by (rule rl_inv_init [OF assms(1)])
  have m0: "1 \<le> max_requests (RateLimiter_init N W)" using assms(1) by (simp add: RateLimiter_init_def)
  from rl_inv_run [OF i0 m0 assms(3)]
  have inv: "rl_inv self" and N: "max_requests self = N" and W: "window_seconds self = W"
    by (simp_all add: RateLimiter_init_def)
  have inv': "rl_inv self'" using rl_inv_step [OF inv _ assms(4)] N assms(1) by simp
  note p = is_allowed_params [OF assms(4)]
  have a: "cd' = cd \<or> (k = c \<and> cd' = \<lparr>count = 1, first_request = now, last_request = now\<rparr>)"
    if "requests self k = Some cd" "count cd = N" "requests self' k = Some cd'" for k cd cd'
    using full_window_not_incremented [OF assms(4), of k cd cd'] that N by simp
  have b: "\<not> fst v \<and> blocked_clients self' c = Some (first_request cd + real_of_int W)"
    if "requests self c = Some cd" "count cd = N" "now - first_request cd < real_of_int W" for cd
    using full_window_blocks [OF inv assms(4), of cd] that N W by simp
  have c: "k = c \<and> \<not> fst v \<and>
          (\<exists>cd. requests self c = Some cd \<and> requests self' c = Some cd
                \<and> now - first_request cd < real_of_int W \<and> count cd = N
                \<and> u = first_request cd + real_of_int W)"
    if n: "blocked_clients self' k = Some u" "blocked_clients self k \<noteq> Some u" for k u
  proof -
    from new_block_from_window [OF assms(4) n] obtain cd where
      k: "k = c" "\<not> fst v" and cd: "requests self c = Some cd" "requests self' c = Some cd"
      "now - first_request cd < real_of_int W" "N \<le> count cd" "u = first_request cd + real_of_int W"
      using N W by auto
    from inv cd(1) have "count cd \<le> N" unfolding rl_inv_def N by blast
    with cd k show ?thesis by auto
  qed
  have a': "\<forall>k cd cd'. requests self k = Some cd \<and> count cd = N \<and> requests self' k = Some cd' \<longrightarrow>
          cd' = cd \<or> (k = c \<and> cd' = \<lparr>count = 1, first_request = now, last_request = now\<rparr>)"
    using a by blast
  have b': "\<forall>cd. requests self c = Some cd \<and> count cd = N \<and> now - first_request cd < real_of_int W \<longrightarrow>
          \<not> fst v \<and> blocked_clients self' c = Some (first_request cd + real_of_int W)"
    using b by blast
  have c': "\<forall>k u. blocked_clients self' k = Some u \<and> blocked_clients self k \<noteq> Some u \<longrightarrow>
          k = c \<and> \<not> fst v \<and>
          (\<exists>cd. requests self c = Some cd \<and> requests self' c = Some cd
                \<and> now - first_request cd < real_of_int W \<and> count cd = N
                \<and> u = first_request cd + real_of_int W)"
    using c by blast
  from p N W have p': "max_requests self' = N" "window_seconds self' = W" by simp_all
  from inv inv' p' a' b' c' show ?thesis by (intro conjI)
qed

theorem C4_invariant_witness:
  "(1::int) \<le> 2 \<and> (1::int) \<le> 60
   \<and> (\<exists>vs self v self'.
         run (RateLimiter_init 2 60) [(''c1'', 0), (''c1'', 1)] = Inr (vs, self)
       \<and> is_allowed self ''c1'' 2 = Inr (v, self')
       \<and> rl_inv self \<and> rl_inv self' \<and> \<not> fst v \<and> blocked_clients self' ''c1'' = Some 60)"
proof -
  have h: "(1::int) \<le> 2" "(1::int) \<le> 60" by simp_all
  have "\<exists>vs self'. run (RateLimiter_init 2 60) (map (Pair ''c1'') (0 # [1])) = Inr (vs, self')
           \<and> map fst vs = replicate (Suc (length [1::real])) True
           \<and> requests self' ''c1'' = Some \<lparr>count = 1 + int (length [1::real]), first_request = 0,
                                       last_request = last (0 # [1])\<rparr>
           \<and> blocked_clients self' ''c1'' = None
           \<and> max_requests self' = max_requests (RateLimiter_init 2 60)
           \<and> window_seconds self' = window_seconds (RateLimiter_init 2 60)"
    by (rule quota_run) (simp_all add: RateLimiter_init_def clean_old_def)
  then obtain vs self where r: "run (RateLimiter_init 2 60) [(''c1'', 0), (''c1'', 1)] = Inr (vs, self)"
    and q: "requests self ''c1'' = Some \<lparr>count = 2, first_request = 0, last_request = 1\<rparr>"
    by auto
  obtain v self' where s: "is_allowed self ''c1'' 2 = Inr (v, self')"
    using is_allowed_total by blast
  from C4_invariant [OF h r s] q
  have "rl_inv self \<and> rl_inv self' \<and> \<not> fst v \<and> blocked_clients self' ''c1'' = Some 60"
    by simp
  with r s h show ?thesis by blast
qed


section \<open>Clients do not influence each other\<close>

lemma same_view_mono: "same_view c T s1 s2 \<Longrightarrow> T \<le> T' \<Longrightarrow> same_view c T' s1 s2"
  by (auto simp: same_view_def split: option.splits)

lemma same_view_refl: "same_view c T s s"
  by (simp add: same_view_def)

lemma clean_old_same_view:
  "same_view c T s1 s2 \<Longrightarrow> T \<le> now \<Longrightarrow> clean_old s1 now c = clean_old s2 now c"
  by (auto simp: same_view_def clean_old_def split: option.splits)

lemma still_blocked_same_view:
  "same_view c T s1 s2 \<Longrightarrow> still_blocked s1 c now = still_blocked s2 c now"
  by (simp add: same_view_def still_blocked_def)

lemma own_step:
  assumes sv: "same_view c T s1 s2" and T: "T \<le> now"
    and a1: "is_allowed s1 c now = Inr (v1, s1')" and a2: "is_allowed s2 c now = Inr (v2, s2')"
  shows "v1 = v2 \<and> same_view c now s1' s2'"
proof -
  note co = clean_old_same_view [OF sv T]
  note sb = still_blocked_same_view [OF sv, of now]
  from sv have pm: "max_requests s1 = max_requests s2" "window_seconds s1 = window_seconds s2"
    and bl: "blocked_clients s1 c = blocked_clients s2 c"
    by (simp_all add: same_view_def)
  show ?thesis
  proof (rule is_allowed_cases [of s1 c now])
    fix u assume b: "blocked_clients s1 c = Some u" "now < u"
      and r: "is_allowed s1 c now =
       Inr ((False, ''Rate limit exceeded. Try again in '' @ str_int (py_int (u - now)) @ '' seconds.''), s1)"
    from b bl have "blocked_clients s2 c = Some u" by simp
    from is_allowed_still_blocked [OF this b(2)] r a1 a2
    have "v1 = v2" "s1' = s1" "s2' = s2" by simp_all
    then show ?thesis using same_view_mono [OF sv T] by simp
  next
    assume nb: "\<not> still_blocked s1 c now" and c1: "clean_old s1 now c = None"
      and r: "is_allowed s1 c now =
         Inr ((True, ''Request allowed''),
          s1\<lparr>requests := (clean_old s1 now)(c \<mapsto> \<lparr>count = 1, first_request = now, last_request = now\<rparr>),
               blocked_clients := (blocked_clients s1)(c := None)\<rparr>)"
    from nb sb have nb2: "\<not> still_blocked s2 c now" by simp
    from c1 co have c2: "clean_old s2 now c = None" by simp
    from is_allowed_new [OF nb2 c2] r a1 a2 pm show ?thesis
      by (auto simp: same_view_def)
  next
    fix cd assume nb: "\<not> still_blocked s1 c now" and c1: "clean_old s1 now c = Some cd"
      and lim: "max_requests s1 \<le> count cd"
      and r: "is_allowed s1 c now =
         Inr ((False, ''Rate limit exceeded ('' @ str_int (max_requests s1) @ '' requests per ''
                  @ str_int (window_seconds s1) @ ''s). Try again in ''
                  @ str_int (py_int (first_request cd + real_of_int (window_seconds s1) - now))
                  @ '' seconds.''),
          s1\<lparr>requests := clean_old s1 now,
               blocked_clients := (blocked_clients s1)
                                    (c \<mapsto> first_request cd + real_of_int (window_seconds s1))\<rparr>)"
    from nb sb have nb2: "\<not> still_blocked s2 c now" by simp
    from c1 co have c2: "clean_old s2 now c = Some cd" by simp
    from lim pm have lim2: "max_requests s2 \<le> count cd" by simp
    from is_allowed_limit [OF nb2 c2 lim2] r a1 a2 pm c1 c2 show ?thesis
      by (auto simp: same_view_def)
  next
    fix cd assume nb: "\<not> still_blocked s1 c now" and c1: "clean_old s1 now c = Some cd"
      and lim: "count cd < max_requests s1"
      and r: "is_allowed s1 c now =
         Inr ((True, ''Request allowed ('' @ str_int (count cd + 1) @ ''/''
                 @ str_int (max_requests s1) @ '')''),
          s1\<lparr>requests := (clean_old s1 now)(c \<mapsto> cd\<lparr>count := count cd + 1, last_request := now\<rparr>),
               blocked_clients := (blocked_clients s1)(c := None)\<rparr>)"
    from nb sb have nb2: "\<not> still_blocked s2 c now" by simp
    from c1 co have c2: "clean_old s2 now c = Some cd" by simp
    from lim pm have lim2: "count cd < max_requests s2" by simp
    from is_allowed_count [OF nb2 c2 lim2] r a1 a2 pm show ?thesis
      by (auto simp: same_view_def)
  qed
qed

lemma other_step:
  assumes sv: "same_view c T s1 s2" and T: "T \<le> now" and k: "k \<noteq> c"
    and a1: "is_allowed s1 k now = Inr (v, s1')"
  shows "same_view c now s1' s2"
proof -
  note p = is_allowed_params [OF a1]
  have keep: "same_view c now (s1\<lparr>requests := r, blocked_clients := b\<rparr>) s2"
    if "r c = clean_old s1 now c" "b c = blocked_clients s1 c" for r b
    using sv T that by (auto simp: same_view_def clean_old_def split: option.splits)
  from a1 show ?thesis
  proof (cases rule: is_allowed_effect)
    case blocked
    then show ?thesis using same_view_mono [OF sv T] by simp
  next
    case new
    have "same_view c now (s1\<lparr>requests := requests s1', blocked_clients := blocked_clients s1'\<rparr>) s2"
      by (rule keep) (use new k in simp_all)
    then show ?thesis using p by (simp add: same_view_def)
  next
    case (limit cd)
    have "same_view c now (s1\<lparr>requests := requests s1', blocked_clients := blocked_clients s1'\<rparr>) s2"
      by (rule keep) (use limit k in simp_all)
    then show ?thesis using p by (simp add: same_view_def)
  next
    case (count cd)
    have "same_view c now (s1\<lparr>requests := requests s1', blocked_clients := blocked_clients s1'\<rparr>) s2"
      by (rule keep) (use count k in simp_all)
    then show ?thesis using p by (simp add: same_view_def)
  qed
qed

lemma results_of_Cons:
  "results_of c (call # calls) (v # vs)
     = (if fst call = c then v # results_of c calls vs else results_of c calls vs)"
  by (simp add: results_of_def)

lemma view_sim:
  assumes "same_view c T s1 s2" "sorted (map snd calls)" "\<forall>call\<in>set calls. T \<le> snd call"
    and "run s1 calls = Inr (vs, s1')"
    and "run s2 (filter (\<lambda>call. fst call = c) calls) = Inr (ws, s2')"
  shows "results_of c calls vs = ws"
  using assms
proof (induction calls arbitrary: T s1 s2 vs ws)
  case Nil
  then show ?case by (simp add: results_of_def)
next
  case (Cons call calls)
  from Cons.prems(4) obtain v s0 us where
    a: "is_allowed s1 (fst call) (snd call) = Inr (v, s0)" and b: "run s0 calls = Inr (us, s1')"
    and vs: "vs = v # us"
    by (rule run_ConsE)
  have T: "T \<le> snd call" using Cons.prems(3) by simp
  have srt: "sorted (map snd calls)" "\<forall>x\<in>set calls. snd call \<le> snd x"
    using Cons.prems(2) by auto
  show ?case
  proof (cases "fst call = c")
    case True
    with Cons.prems(5) have "run s2 (call # filter (\<lambda>call. fst call = c) calls) = Inr (ws, s2')"
      by simp
    then obtain v2 s20 us2 where
      a2: "is_allowed s2 (fst call) (snd call) = Inr (v2, s20)"
      and b2: "run s20 (filter (\<lambda>call. fst call = c) calls) = Inr (us2, s2')"
      and ws: "ws = v2 # us2"
      by (rule run_ConsE)
    from own_step [OF Cons.prems(1) T] a a2 True
    have "v = v2" "same_view c (snd call) s0 s20" by auto
    from Cons.IH [OF this(2) srt b b2] \<open>v = v2\<close> True show ?thesis
      by (simp add: vs ws results_of_Cons)
  next
    case False
    then have "same_view c (snd call) s0 s2"
      using other_step [OF Cons.prems(1) T _ a] by auto
    from Cons.IH [OF this srt b] Cons.prems(5) False show ?thesis
      by (simp add: vs results_of_Cons)
  qed
qed

lemma own_results:
  assumes "sorted (map snd calls)" "run self calls = Inr (vs, s1)"
    and "run self (filter (\<lambda>call. fst call = c) calls) = Inr (ws, s2)"
  shows "results_of c calls vs = ws"
proof (cases calls)
  case Nil
  with assms show ?thesis by (simp add: results_of_def)
next
  case (Cons call rest)
  with assms(1) have "\<forall>x\<in>set calls. snd call \<le> snd x" by auto
  from view_sim [OF same_view_refl assms(1) this assms(2,3)] show ?thesis .
qed

lemma run_length: "run self calls = Inr (vs, s) \<Longrightarrow> length vs = length calls"
proof (induction calls arbitrary: self vs)
  case Nil
  then show ?case by simp
next
  case (Cons call calls)
  from Cons.prems obtain v s0 us where "run s0 calls = Inr (us, s)" "vs = v # us"
    by (rule run_ConsE)
  with Cons.IH show ?case by simp
qed

lemma run_prefix:
  assumes "run self (xs @ ys) = Inr (ws, s)"
  shows "\<exists>s'. run self xs = Inr (take (length xs) ws, s')"
proof -
  obtain us s' where 1: "run self xs = Inr (us, s')" using run_total by blast
  obtain vs s'' where 2: "run s' ys = Inr (vs, s'')" using run_total by blast
  from run_append [OF 1 2] assms have "ws = us @ vs" by simp
  moreover have "length us = length xs" by (rule run_length [OF 1])
  ultimately show ?thesis using 1 by auto
qed

lemma own_quota:
  assumes N: "1 \<le> N" and own: "\<forall>call\<in>set own. fst call = A"
    and n: "n \<le> nat N" "n \<le> length own"
    and within: "\<forall>i<n. snd (own ! i) - snd (own ! 0) < real_of_int W"
    and r: "run (RateLimiter_init N W) own = Inr (ws, s)"
  shows "\<forall>i<n. fst (ws ! i)"
proof (cases n)
  case 0
  then show ?thesis by simp
next
  case (Suc m)
  define ts where "ts = map snd (take n own)"
  have len: "length ts = n" using n(2) by (simp add: ts_def)
  have nth: "ts ! i = snd (own ! i)" if "i < n" for i
    using that n(2) by (simp add: ts_def)
  from len Suc obtain t0 rest where ts: "ts = t0 # rest" by (cases ts) auto
  have t0: "t0 = snd (own ! 0)" using nth [of 0] Suc ts by simp
  have rest: "\<forall>t\<in>set rest. t - t0 < real_of_int W"
  proof
    fix t assume "t \<in> set rest"
    then have "t \<in> set ts" by (simp add: ts)
    then obtain i where "i < length ts" "ts ! i = t" by (auto simp: in_set_conv_nth)
    with within nth len t0 show "t - t0 < real_of_int W" by auto
  qed
  have "map (Pair A \<circ> snd) (take n own) = take n own"
    by (rule map_idI) (use own in \<open>auto dest!: in_set_takeD simp: prod_eq_iff\<close>)
  then have "map (Pair A) (map snd (take n own)) = take n own" by simp
  then have tk: "take n own = map (Pair A) (t0 # rest)" by (simp add: ts_def [symmetric] ts)
  let ?L = "RateLimiter_init N W"
  have lr: "int (length rest) < max_requests ?L"
    using len ts n(1) by (auto simp: RateLimiter_init_def)
  have "\<exists>vs self'. run ?L (map (Pair A) (t0 # rest)) = Inr (vs, self')
           \<and> map fst vs = replicate (Suc (length rest)) True
           \<and> requests self' A = Some \<lparr>count = 1 + int (length rest), first_request = t0,
                                       last_request = last (t0 # rest)\<rparr>
           \<and> blocked_clients self' A = None
           \<and> max_requests self' = max_requests ?L \<and> window_seconds self' = window_seconds ?L"
    by (rule quota_run) (use rest lr in \<open>simp_all add: RateLimiter_init_def clean_old_def\<close>)
  then obtain us s1 where u: "run ?L (take n own) = Inr (us, s1)"
    and tr: "map fst us = replicate n True"
    using tk len ts by auto
  from r have "run ?L (take n own @ drop n own) = Inr (ws, s)" by simp
  from run_prefix [OF this] u n(2) have "us = take n ws" by simp
  show ?thesis
  proof (intro allI impI)
    fix i assume i: "i < n"
    have "length us = n" using tr by (metis length_map length_replicate)
    with i have "fst (us ! i) = map fst us ! i" by simp
    also have "\<dots> = True" using tr i by simp
    finally show "fst (ws ! i)" using \<open>us = take n ws\<close> i by simp
  qed
qed

text \<open>
  C9 (as amended). Where the clock readings of successive calls of \<open>is_allowed\<close> do not
  decrease, the results that client \<open>A\<close> receives are the same as in the run without the
  calls of another client \<open>B\<close>; and from a fresh limiter with \<open>max_requests = N \<ge> 1\<close>,
  the first \<open>N\<close> calls of \<open>A\<close> that fall within \<open>W\<close> seconds of its first call are all
  allowed, whatever other clients do.
\<close>

theorem C9_clients_independent:
  assumes "A \<noteq> B" "sorted (map snd calls)"
  shows "\<exists>vs s1 vs' s2.
       run self calls = Inr (vs, s1)
     \<and> run self (filter (\<lambda>call. fst call \<noteq> B) calls) = Inr (vs', s2)
     \<and> results_of A calls vs = results_of A (filter (\<lambda>call. fst call \<noteq> B) calls) vs'
     \<and> (self = RateLimiter_init N W \<and> 1 \<le> N \<longrightarrow>
         (\<forall>n. n \<le> nat N \<and> n \<le> length (filter (\<lambda>call. fst call = A) calls)
            \<and> (\<forall>i<n. snd (filter (\<lambda>call. fst call = A) calls ! i)
                       - snd (filter (\<lambda>call. fst call = A) calls ! 0) < real_of_int W)
            \<longrightarrow> (\<forall>i<n. fst (results_of A calls vs ! i))))"
proof -
  let ?own = "filter (\<lambda>call. fst call = A) calls"
  let ?rest = "filter (\<lambda>call. fst call \<noteq> B) calls"
  obtain vs s1 where 1: "run self calls = Inr (vs, s1)" using run_total by blast
  obtain vs' s2 where 2: "run self ?rest = Inr (vs', s2)" using run_total by blast
  obtain ws s3 where 3: "run self ?own = Inr (ws, s3)" using run_total by blast
  have o: "filter (\<lambda>call. fst call = A) ?rest = ?own"
    using assms(1) by (auto intro: filter_cong)
  have srt: "sorted (map snd ?rest)" using assms(2) by (simp add: sorted_map sorted_wrt_filter)
  have r1: "results_of A calls vs = ws" by (rule own_results [OF assms(2) 1 3])
  have "run self (filter (\<lambda>call. fst call = A) ?rest) = Inr (ws, s3)"
    unfolding o by (rule 3)
  then have r2: "results_of A ?rest vs' = ws"
    by (rule own_results [OF srt 2])
  have q: "\<forall>i<n. fst (results_of A calls vs ! i)"
    if "self = RateLimiter_init N W" "1 \<le> N" "n \<le> nat N" "n \<le> length ?own"
      "\<forall>i<n. snd (?own ! i) - snd (?own ! 0) < real_of_int W" for n
    unfolding r1
    by (rule own_quota [OF that(2) _ that(3,4,5)]) (use 3 that(1) in auto)
  from 1 2 r1 r2 q show ?thesis by (intro exI [of _ vs] exI [of _ s1] exI [of _ vs'] exI [of _ s2]) auto
qed

theorem C9_clients_independent_witness:
  "''A'' \<noteq> ''B'' \<and> sorted (map snd [(''A'', 0), (''B'', 0), (''A'', 1), (''B'', 1), (''A'', 2 :: real)])
   \<and> (\<exists>vs s1 vs' s2.
       run (RateLimiter_init 2 60) [(''A'', 0), (''B'', 0), (''A'', 1), (''B'', 1), (''A'', 2)] = Inr (vs, s1)
     \<and> run (RateLimiter_init 2 60) [(''A'', 0), (''A'', 1), (''A'', 2)] = Inr (vs', s2)
     \<and> results_of ''A'' [(''A'', 0), (''B'', 0), (''A'', 1), (''B'', 1), (''A'', 2)] vs
         = results_of ''A'' [(''A'', 0), (''A'', 1), (''A'', 2)] vs'
     \<and> fst (results_of ''A'' [(''A'', 0), (''B'', 0), (''A'', 1), (''B'', 1), (''A'', 2)] vs ! 0)
     \<and> fst (results_of ''A'' [(''A'', 0), (''B'', 0), (''A'', 1), (''B'', 1), (''A'', 2)] vs ! 1))"
proof -
  let ?calls = "[(''A'', 0), (''B'', 0), (''A'', 1), (''B'', 1), (''A'', 2 :: real)]"
  have h: "''A'' \<noteq> ''B''" "sorted (map snd ?calls)" by simp_all
  have f: "filter (\<lambda>call. fst call \<noteq> ''B'') ?calls = [(''A'', 0), (''A'', 1), (''A'', 2)]"
    "filter (\<lambda>call. fst call = ''A'') ?calls = [(''A'', 0), (''A'', 1), (''A'', 2)]"
    by simp_all
  from C9_clients_independent [OF h, of "RateLimiter_init 2 60" 2 60]
  obtain vs s1 vs' s2 where
    1: "run (RateLimiter_init 2 60) ?calls = Inr (vs, s1)"
    and 2: "run (RateLimiter_init 2 60) [(''A'', 0), (''A'', 1), (''A'', 2)] = Inr (vs', s2)"
    and 3: "results_of ''A'' ?calls vs = results_of ''A'' [(''A'', 0), (''A'', 1), (''A'', 2)] vs'"
    and 4: "\<forall>n. n \<le> nat 2 \<and> n \<le> length [(''A'', 0 :: real), (''A'', 1), (''A'', 2)]
            \<and> (\<forall>i<n. snd ([(''A'', 0 :: real), (''A'', 1), (''A'', 2)] ! i)
                       - snd ([(''A'', 0 :: real), (''A'', 1), (''A'', 2)] ! 0) < real_of_int 60)
            \<longrightarrow> (\<forall>i<n. fst (results_of ''A'' ?calls vs ! i))"
    unfolding f by auto
  have "\<forall>i<2. snd ([(''A'', 0 :: real), (''A'', 1), (''A'', 2)] ! i)
                       - snd ([(''A'', 0 :: real), (''A'', 1), (''A'', 2)] ! 0) < real_of_int 60"
    by (auto simp: less_Suc_eq numeral_2_eq_2)
  with 4 [THEN spec, of 2] have "\<forall>i<2. fst (results_of ''A'' ?calls vs ! i)" by simp
  then have "fst (results_of ''A'' ?calls vs ! 0)" "fst (results_of ''A'' ?calls vs ! 1)" by simp_all
  with h 1 2 3 show ?thesis by blast
qed

text \<open>
  The clock matters: were it set back between two calls, the sweep that a call of \<open>B\<close> makes
  at a late reading would drop a window of \<open>A\<close> that an earlier reading still finds live.
  With two requests allowed in 60 seconds, \<open>A\<close> calls at the readings 0, 1 and 50: its third
  call is allowed when \<open>B\<close> has called at the reading 100 in between, and rejected in the run
  without the call of \<open>B\<close>.
\<close>

theorem C9_clock_set_back_counterexample:
  "''A'' \<noteq> ''B''
   \<and> filter (\<lambda>call. fst call \<noteq> ''B'') [(''A'', 0 :: real), (''A'', 1), (''B'', 100), (''A'', 50)]
       = [(''A'', 0), (''A'', 1), (''A'', 50)]
   \<and> map_sum id (map fst \<circ> results_of ''A'' [(''A'', 0), (''A'', 1), (''B'', 100), (''A'', 50)] \<circ> fst)
     (run (RateLimiter_init 2 60) [(''A'', 0), (''A'', 1), (''B'', 100), (''A'', 50)])
     = Inr [True, True, True]
   \<and> map_sum id (map fst \<circ> fst) (run (RateLimiter_init 2 60) [(''A'', 0), (''A'', 1), (''A'', 50)])
     = Inr [True, True, False]"
  by (simp add: is_allowed_def check_blocked_def bind_err_def getitem_def delitem_def
      clean_old_def RateLimiter_init_def Let_def results_of_def)

section \<open>Verdicts, not exceptions\<close>

lemma validate_query_verdicts:
  "validate_query u query = (True, ''Query validated successfully'')
   \<or> (\<exists>reason\<in>set query_rejections. validate_query u query = (False, reason))"
proof -
  let ?f = "find (\<lambda>(pattern, r). re_search u query_flags r (py_upper u (py_strip query)))
              (BLOCKED_PATTERNS @ ORACLE_SPECIFIC_BLOCKS)"
  let ?g = "find (\<lambda>(count, limit, message). count > limit) (complexity_checks query)"
  consider (blank) "query = [] \<or> py_strip query = []"
    | (shape) "\<not> (query = [] \<or> py_strip query = [])" "\<not> startswith (py_upper u (py_strip query)) (codes ''SELECT'')"
    | (pattern) p r where "\<not> (query = [] \<or> py_strip query = [])"
        "startswith (py_upper u (py_strip query)) (codes ''SELECT'')" "?f = Some (p, r)"
    | (complexity) n l m where "\<not> (query = [] \<or> py_strip query = [])"
        "startswith (py_upper u (py_strip query)) (codes ''SELECT'')" "?f = None" "?g = Some (n, l, m)"
    | (rest) "\<not> (query = [] \<or> py_strip query = [])"
        "startswith (py_upper u (py_strip query)) (codes ''SELECT'')" "?f = None" "?g = None"
    by (cases ?f; cases ?g) auto
  then show ?thesis
  proof cases
    case blank
    then have "validate_query u query = (False, ''Query cannot be empty'')"
      by (simp add: validate_query_def)
    then show ?thesis by (simp add: query_rejections_def)
  next
    case shape
    then have "validate_query u query = (False, ''Only SELECT queries are allowed'')"
      by (simp add: validate_query_def Let_def)
    then show ?thesis by (simp add: query_rejections_def)
  next
    case pattern
    then have "validate_query u query = (False, ''Query contains blocked pattern: '' @ p)"
      by (simp add: validate_query_def Let_def)
    moreover from pattern(3) have "(p, r) \<in> set (BLOCKED_PATTERNS @ ORACLE_SPECIFIC_BLOCKS)"
      by (auto dest: find_SomeD)
    then have "''Query contains blocked pattern: '' @ p \<in> set query_rejections"
      unfolding query_rejections_def by force
    ultimately show ?thesis by blast
  next
    case complexity
    then have "validate_query u query = (False, ''Query too complex: '' @ m)"
      by (simp add: validate_query_def Let_def)
    moreover from complexity(4) have "(n, l, m) \<in> set (complexity_checks query)"
      by (auto dest: find_SomeD)
    then have "m \<in> set [''Too many parentheses'', ''Too many SELECT statements'',
            ''Too many JOIN operations'', ''Query too long'']"
      by (auto simp: complexity_checks_def)
    then have "''Query too complex: '' @ m \<in> set query_rejections"
      unfolding query_rejections_def by force
    ultimately show ?thesis by blast
  next
    case rest
    then have "validate_query u query = (True, ''Query validated successfully'')
      \<or> validate_query u query = (False, ''Query contains suspicious string concatenation'')"
      by (simp add: validate_query_def Let_def)
    then show ?thesis by (auto simp: query_rejections_def)
  qed
qed

lemma validate_table_name_verdicts:
  "validate_table_name u t = (True, ''Table name validated successfully'')
   \<or> (\<exists>reason\<in>set table_name_rejections. validate_table_name u t = (False, reason))"
proof (cases "find (\<lambda>reserved. sublist (codes reserved) (py_upper u t)) reserved_words")
  case None
  then show ?thesis
    by (simp add: validate_table_name_def table_name_rejections_def Let_def)
next
  case (Some w)
  then have "w \<in> set reserved_words" by (auto dest: find_SomeD)
  then have "''Table name contains reserved word: '' @ w \<in> set table_name_rejections"
    unfolding table_name_rejections_def by force
  moreover have "validate_table_name u t = (False, ''Table name cannot be empty'')
    \<or> validate_table_name u t = (False, ''Invalid table name format'')
    \<or> validate_table_name u t = (False, ''Table name too long'')
    \<or> validate_table_name u t = (False, ''Table name contains reserved word: '' @ w)"
    using Some by (simp add: validate_table_name_def Let_def)
  ultimately show ?thesis
    unfolding table_name_rejections_def by auto
qed

text \<open>
  C10. \<open>is_allowed\<close> returns a pair of a flag and a message, and never raises: no subscript
  or \<open>del\<close> meets a missing key. \<open>validate_query\<close> and \<open>validate_table_name\<close> return either
  the accepting verdict or a rejection with one of their fixed reasons, for every text of
  Unicode characters.
\<close>

theorem C10_verdicts_not_exceptions:
  "(\<exists>allowed message self'. is_allowed self c now = Inr ((allowed, message), self'))
   \<and> (validate_query u query = (True, ''Query validated successfully'')
       \<or> (\<exists>reason\<in>set query_rejections. validate_query u query = (False, reason)))
   \<and> (validate_table_name u t = (True, ''Table name validated successfully'')
       \<or> (\<exists>reason\<in>set table_name_rejections. validate_table_name u t = (False, reason)))"
  using is_allowed_total [of self c now] validate_query_verdicts [of u query]
    validate_table_name_verdicts [of u t]
  by (intro conjI) auto

theorem C10_verdicts_not_exceptions_witness:
  "(\<exists>allowed message self'.
      is_allowed (RateLimiter_init 3 60) ''c1'' 0 = Inr ((allowed, message), self'))
   \<and> validate_query greek_db (codes ''DROP TABLE users'') = (False, ''Only SELECT queries are allowed'')
   \<and> validate_table_name greek_db (codes ''123invalid'') = (False, ''Invalid table name format'')"
proof -
  have a: "validate_query greek_db (codes ''DROP TABLE users'') = (False, ''Only SELECT queries are allowed'')"
    by (simp add: validate_query_def string_eval)
  have b: "validate_table_name greek_db (codes ''123invalid'') = (False, ''Invalid table name format'')"
    by (simp add: validate_table_name_eval)
  from C10_verdicts_not_exceptions [of "RateLimiter_init 3 60" "''c1''" 0 greek_db
      "codes ''DROP TABLE users''" "codes ''123invalid''"]
  have "\<exists>allowed message self'.
      is_allowed (RateLimiter_init 3 60) ''c1'' 0 = Inr ((allowed, message), self')"
    by (rule conjunct1)
  with a b show ?thesis by (intro conjI)
qed

end
